theory Spec2Isabelle
  imports Complex_Main "HOL-Library.AList"
begin

section \<open>JavaScript values used by the services\<close>

text \<open>
  A string is a sequence of UTF-16 code units. The model has the code units below 256,
  one per \<open>char\<close>: Basic Latin and the Latin-1 Supplement. There
  \<open>String.prototype.toLowerCase\<close> works unit by unit: the capital letters are
  \<open>A\<close> to \<open>Z\<close> (65 to 90), U+00C0 to U+00D6 (192 to 214) and U+00D8 to U+00DE
  (216 to 222), the small letter of a capital is 32 units above it, and every other unit
  is left as it is (U+00D7 is the multiplication sign; the small letters U+00B5, U+00DF
  and U+00FF have no capital in this range).
\<close>

definition is_capital :: "nat \<Rightarrow> bool" where
  "is_capital n = ((65 \<le> n \<and> n \<le> 90) \<or> (192 \<le> n \<and> n \<le> 214) \<or> (216 \<le> n \<and> n \<le> 222))"

definition toLowerCase_char :: "char \<Rightarrow> char" where
  "toLowerCase_char c =
     (let n = (of_char c :: nat) in if is_capital n then char_of (n + 32) else c)"

definition toLowerCase :: "string \<Rightarrow> string" where
  "toLowerCase s = map toLowerCase_char s"

text \<open>\<open>text.startsWith(kw)\<close>, \<open>text.endsWith(kw)\<close> and \<open>text.includes(kw)\<close>.\<close>

definition startsWith :: "string \<Rightarrow> string \<Rightarrow> bool" where
  "startsWith t k = (take (length k) t = k)"

definition endsWith :: "string \<Rightarrow> string \<Rightarrow> bool" where
  "endsWith t k = (length k \<le> length t \<and> drop (length t - length k) t = k)"

fun str_includes :: "string \<Rightarrow> string \<Rightarrow> bool" where
  "str_includes [] k = (k = [])"
| "str_includes (c # cs) k = (startsWith (c # cs) k \<or> str_includes cs k)"

text \<open>
  The replacement text of \<open>s.replace(pat, rep)\<close> is a template: in it \<open>$$\<close>
  stands for a dollar sign, \<open>$&\<close> for the matched text, a dollar sign followed by a
  grave accent for the part of \<open>s\<close> before the match and a dollar sign followed by an
  apostrophe for the part after it. The patterns of the services have no capture
  group, so that every other dollar sign, also one followed by digits or by \<open><\<close>,
  stands for itself.
\<close>

fun get_substitution :: "string \<Rightarrow> string \<Rightarrow> string \<Rightarrow> string \<Rightarrow> string" where
  "get_substitution matched preceding following [] = []"
| "get_substitution matched preceding following [c] = [c]"
| "get_substitution matched preceding following (c # d # rest) =
     (if c \<noteq> CHR ''$'' then c # get_substitution matched preceding following (d # rest)
      else if d = CHR ''$'' then CHR ''$'' # get_substitution matched preceding following rest
      else if d = CHR ''&'' then matched @ get_substitution matched preceding following rest
      else if d = CHR 0x60 then preceding @ get_substitution matched preceding following rest
      else if d = CHR 0x27 then following @ get_substitution matched preceding following rest
      else c # get_substitution matched preceding following (d # rest))"

text \<open>
  \<open>s.replace(pat, rep)\<close> with a string pattern replaces the first occurrence only;
  with a global regular expression of a literal text it replaces every occurrence, left
  to right, the occurrences being those of \<open>s\<close> itself. The patterns of the services
  are non-empty literals. The third argument is the part of \<open>s\<close> already passed.
\<close>

fun replace_first_from :: "string \<Rightarrow> string \<Rightarrow> string \<Rightarrow> string \<Rightarrow> string" where
  "replace_first_from pat rep preceding [] =
     (if pat = [] then get_substitution pat preceding [] rep else [])"
| "replace_first_from pat rep preceding (c # cs) =
     (if startsWith (c # cs) pat
      then get_substitution pat preceding (drop (length pat) (c # cs)) rep
             @ drop (length pat) (c # cs)
      else c # replace_first_from pat rep (preceding @ [c]) cs)"

definition replace_first :: "string \<Rightarrow> string \<Rightarrow> string \<Rightarrow> string" where
  "replace_first pat rep s = replace_first_from pat rep [] s"

fun replace_all_from :: "string \<Rightarrow> string \<Rightarrow> string \<Rightarrow> string \<Rightarrow> string" where
  "replace_all_from pat rep preceding [] = []"
| "replace_all_from pat rep preceding (c # cs) =
     (if pat \<noteq> [] \<and> startsWith (c # cs) pat
      then get_substitution pat preceding (drop (length pat - 1) cs) rep
             @ replace_all_from pat rep (preceding @ pat) (drop (length pat - 1) cs)
      else c # replace_all_from pat rep (preceding @ [c]) cs)"

definition replace_all :: "string \<Rightarrow> string \<Rightarrow> string \<Rightarrow> string" where
  "replace_all pat rep s = replace_all_from pat rep [] s"

text \<open>\<open>s.split(sep)\<close> for a separator of one character.\<close>

fun split_on :: "char \<Rightarrow> string \<Rightarrow> string list" where
  "split_on sep [] = [[]]"
| "split_on sep (c # cs) =
     (if c = sep then [] # split_on sep cs
      else (case split_on sep cs of
              [] \<Rightarrow> [[c]]
            | p # ps \<Rightarrow> (c # p) # ps))"

text \<open>
  A JavaScript number is \<open>NaN\<close>, an infinity or a finite value. Every comparison
  with \<open>NaN\<close> is false; the other numbers are ordered, the infinities at the two
  ends. \<open>a > b\<close> is \<open>b < a\<close>.
\<close>

datatype jsnum = NaN | NegInfinity | Num real | PosInfinity

fun js_lt :: "jsnum \<Rightarrow> jsnum \<Rightarrow> bool" where
  "js_lt NegInfinity (Num y) = True"
| "js_lt NegInfinity PosInfinity = True"
| "js_lt (Num x) (Num y) = (x < y)"
| "js_lt (Num x) PosInfinity = True"
| "js_lt a b = False"

definition js_gt :: "jsnum \<Rightarrow> jsnum \<Rightarrow> bool" where
  "js_gt a b = js_lt b a"

text \<open>
  \<open>Number(text)\<close> and the arithmetic of floating-point numbers belong to the
  JavaScript engine and are parameters of the model: the conversion of a text
  (blanks trimmed, signs, decimals, exponents, other radices, \<open>NaN\<close> for every
  other text), the product and the sum, each with the rounding of the engine.
\<close>

record number_engine =
  Number :: "string \<Rightarrow> jsnum"
  js_times :: "jsnum \<Rightarrow> jsnum \<Rightarrow> jsnum"
  js_plus :: "jsnum \<Rightarrow> jsnum \<Rightarrow> jsnum"

text \<open>An array element read by destructuring: \<open>undefined\<close>, which arithmetic
  converts to \<open>NaN\<close>, when the array is too short.\<close>

definition element :: "jsnum list \<Rightarrow> nat \<Rightarrow> jsnum" where
  "element xs i = (if i < length xs then xs ! i else NaN)"

text \<open>A thrown JavaScript exception, with its message.\<close>

datatype js_error = SyntaxError string | TypeError string | RangeError string

text \<open>
  \<open>new RegExp(pattern, flags)\<close> belongs to the JavaScript engine and is a parameter of
  the model: it throws a \<open>SyntaxError\<close> (\<open>Inl\<close>) or returns the compiled expression,
  of which only \<open>test\<close> is used.
\<close>

type_synonym regexp_engine = "string \<Rightarrow> string \<Rightarrow> js_error + (string \<Rightarrow> bool)"

text \<open>The current \<open>Date\<close>: local hours and minutes, the ISO text and the two
  locale texts the reply template uses.\<close>

record clock =
  getHours :: nat
  getMinutes :: nat
  toISOString :: string
  toLocaleTimeString :: string
  toLocaleDateString :: string

section \<open>Auto-reply service\<close>

subsection \<open>Rules and messages\<close>

text \<open>A rule has the shape that \<open>AutoReplyService.create\<close> builds.\<close>

record trigger =
  trigger_type :: string
  trigger_keywords :: "string list"
  matchType :: string
  pattern :: string
  flags :: string

record timeRange =
  tr_enabled :: bool
  tr_start :: string
  tr_end :: string

record conditions =
  chatType :: string
  timeRange :: timeRange
  excludeContacts :: "string list"

record action =
  action_type :: string
  action_message :: string
  action_delay :: int

record rule =
  rule_id :: string
  rule_name :: string
  rule_sessionId :: string
  rule_trigger :: trigger
  rule_conditions :: conditions
  rule_action :: action
  priority :: int
  enabled :: bool
  rule_createdAt :: string
  matchCount :: int
  lastMatchedAt :: "string option"

text \<open>An inbound message: its key, the sender's display name and the payloads that
  can carry text (\<open>None\<close> is an absent field).\<close>

record message_key =
  fromMe :: bool
  remoteJid :: string

record message_body =
  conversation :: "string option"
  extendedTextMessage_text :: "string option"
  imageMessage_caption :: "string option"
  videoMessage_caption :: "string option"
  documentMessage_caption :: "string option"

record message =
  msg_key :: message_key
  pushName :: "string option"
  msg_message :: "message_body option"

record reply =
  reply_ruleId :: string
  reply_ruleName :: string
  reply_chatId :: string
  reply_message :: string
  reply_delay :: int
  reply_action :: action

subsection \<open>Matching\<close>

text \<open>\<open>a || b\<close> on optional texts: the empty text and an absent field are falsy.\<close>

definition truthy :: "string option \<Rightarrow> bool" where
  "truthy a = (case a of None \<Rightarrow> False | Some s \<Rightarrow> s \<noteq> [])"

definition js_or :: "string option \<Rightarrow> string option \<Rightarrow> string option" where
  "js_or a b = (if truthy a then a else b)"

definition extractMessageText :: "message \<Rightarrow> string option" where
  "extractMessageText m =
     (case msg_message m of
        None \<Rightarrow> None
      | Some msg \<Rightarrow>
          js_or (conversation msg)
            (js_or (extendedTextMessage_text msg)
              (js_or (imageMessage_caption msg)
                (js_or (videoMessage_caption msg)
                  (js_or (documentMessage_caption msg) None)))))"

definition keyword_matches :: "string \<Rightarrow> string \<Rightarrow> string \<Rightarrow> bool" where
  "keyword_matches mt text keyword =
     (let kw = toLowerCase keyword in
      if mt = ''exact'' then text = kw
      else if mt = ''startsWith'' then startsWith text kw
      else if mt = ''endsWith'' then endsWith text kw
      else str_includes text kw)"

definition matchesTrigger :: "regexp_engine \<Rightarrow> trigger \<Rightarrow> string \<Rightarrow> js_error + bool" where
  "matchesTrigger RegExp trigger messageText =
     (let text = toLowerCase messageText in
      if trigger_type trigger = ''all'' then Inr True
      else if trigger_type trigger = ''keyword'' then
        (let kws = trigger_keywords trigger;
             mt = (if matchType trigger = [] then ''contains'' else matchType trigger)
         in Inr (list_ex (keyword_matches mt text) kws))
      else if trigger_type trigger = ''regex'' then
        (case RegExp (pattern trigger) (if flags trigger = [] then ''i'' else flags trigger) of
           Inl e \<Rightarrow> Inr False
         | Inr regex \<Rightarrow> Inr (regex messageText))
      else if trigger_type trigger = ''first_message'' then Inr False
      else Inr False)"

text \<open>
  \<open>const [hour, min] = s.split(':').map(Number)\<close> followed by
  \<open>hour * 60 + min\<close>.
\<close>

definition time_of :: "number_engine \<Rightarrow> string \<Rightarrow> jsnum" where
  "time_of js s =
     (let parts = map (Number js) (split_on CHR '':'' s)
      in js_plus js (js_times js (element parts 0) (Num 60)) (element parts 1))"

definition senderNumber_of :: "string \<Rightarrow> string" where
  "senderNumber_of chatId =
     replace_first ''@g.us'' [] (replace_first ''@s.whatsapp.net'' [] chatId)"

text \<open>
  The hours and minutes of a \<open>Date\<close> are integers below 24 and 60, on which the
  arithmetic of the engine is exact: the current time is their exact value.
\<close>

definition matchesRule ::
  "regexp_engine \<Rightarrow> number_engine \<Rightarrow> clock \<Rightarrow> rule \<Rightarrow> string \<Rightarrow> string \<Rightarrow> bool
     \<Rightarrow> js_error + bool" where
  "matchesRule RegExp js now rule messageText chatId isGroup =
     (let trigger = rule_trigger rule; conditions = rule_conditions rule in
      if chatType conditions \<noteq> [] \<and>
         ((chatType conditions = ''personal'' \<and> isGroup) \<or>
          (chatType conditions = ''group'' \<and> \<not> isGroup))
      then Inr False
      else if tr_enabled (timeRange conditions) \<and>
         (let currentTime = Num (real (getHours now * 60 + getMinutes now));
              startTime = time_of js (tr_start (timeRange conditions));
              endTime = time_of js (tr_end (timeRange conditions))
          in js_lt currentTime startTime \<or> js_gt currentTime endTime)
      then Inr False
      else if excludeContacts conditions \<noteq> [] \<and>
         senderNumber_of chatId \<in> set (excludeContacts conditions)
      then Inr False
      else matchesTrigger RegExp trigger messageText)"

subsection \<open>Rule selection\<close>

text \<open>
  \<open>Array.prototype.sort\<close> with a comparator is a stable sort: modelled as the stable
  insertion sort with the same comparator. The comparator of \<open>processMessage\<close> is
  \<open>(a, b) => (b.priority || 0) - (a.priority || 0)\<close>; a priority is an integer, for
  which \<open>priority || 0\<close> is the priority.
\<close>

fun insert_by :: "('a \<Rightarrow> 'a \<Rightarrow> int) \<Rightarrow> 'a \<Rightarrow> 'a list \<Rightarrow> 'a list" where
  "insert_by cmp x [] = [x]"
| "insert_by cmp x (y # ys) = (if cmp x y \<le> 0 then x # y # ys else y # insert_by cmp x ys)"

definition js_sort :: "('a \<Rightarrow> 'a \<Rightarrow> int) \<Rightarrow> 'a list \<Rightarrow> 'a list" where
  "js_sort cmp xs = foldr (insert_by cmp) xs []"

definition cmp_priority :: "rule \<Rightarrow> rule \<Rightarrow> int" where
  "cmp_priority a b = priority b - priority a"

text \<open>
  The rules are the values of a \<open>Map\<close> from rule id to rule, in insertion order: an
  association list whose keys are the ids of its rules.
\<close>

type_synonym rules = "(string \<times> rule) list"

definition applicableRules :: "rules \<Rightarrow> string \<Rightarrow> rule list" where
  "applicableRules rules sessionId =
     js_sort cmp_priority
       (filter (\<lambda>rule. rule_sessionId rule = [] \<or> rule_sessionId rule = sessionId \<or>
                       rule_sessionId rule = ''*'')
          (filter enabled (map snd rules)))"

definition processReplyTemplate :: "clock \<Rightarrow> string \<Rightarrow> message \<Rightarrow> string" where
  "processReplyTemplate now template message =
     (let name = (case pushName message of
                    None \<Rightarrow> ''User''
                  | Some n \<Rightarrow> if n = [] then ''User'' else n);
          senderNumber = senderNumber_of (remoteJid (msg_key message));
          time = toLocaleTimeString now;
          date = toLocaleDateString now
      in replace_all ''{date}'' date
           (replace_all ''{time}'' time
              (replace_all ''{sender}'' senderNumber
                 (replace_all ''{name}'' name template))))"

text \<open>The \<open>for\<close> loop over the applicable rules: it stops at the first rule that
  matches, and an exception of the matcher leaves the loop.\<close>

fun first_match ::
  "regexp_engine \<Rightarrow> number_engine \<Rightarrow> clock \<Rightarrow> string \<Rightarrow> string \<Rightarrow> bool \<Rightarrow> rule list
     \<Rightarrow> js_error + rule option" where
  "first_match RegExp js now messageText chatId isGroup [] = Inr None"
| "first_match RegExp js now messageText chatId isGroup (rule # rest) =
     (case matchesRule RegExp js now rule messageText chatId isGroup of
        Inl e \<Rightarrow> Inl e
      | Inr matched \<Rightarrow>
          if matched then Inr (Some rule)
          else first_match RegExp js now messageText chatId isGroup rest)"

definition processMessage ::
  "regexp_engine \<Rightarrow> number_engine \<Rightarrow> clock \<Rightarrow> rules \<Rightarrow> string \<Rightarrow> message
     \<Rightarrow> (js_error + reply option) \<times> rules" where
  "processMessage RegExp js now rules sessionId message =
     (if fromMe (msg_key message) \<or> remoteJid (msg_key message) = ''status@broadcast''
      then (Inr None, rules)
      else
        let chatId = remoteJid (msg_key message);
            isGroup = endsWith chatId ''@g.us''
        in case extractMessageText message of
             None \<Rightarrow> (Inr None, rules)
           | Some messageText \<Rightarrow>
               if messageText = [] then (Inr None, rules)
               else
                 (case first_match RegExp js now messageText chatId isGroup
                         (applicableRules rules sessionId) of
                    Inl e \<Rightarrow> (Inl e, rules)
                  | Inr None \<Rightarrow> (Inr None, rules)
                  | Inr (Some rule) \<Rightarrow>
                      let rule' = rule\<lparr>matchCount := matchCount rule + 1,
                                       lastMatchedAt := Some (toISOString now)\<rparr>
                      in (Inr (Some \<lparr>reply_ruleId = rule_id rule',
                                     reply_ruleName = rule_name rule',
                                     reply_chatId = chatId,
                                     reply_message =
                                       processReplyTemplate now (action_message (rule_action rule')) message,
                                     reply_delay =
                                       (if action_delay (rule_action rule') = 0 then 1000
                                        else action_delay (rule_action rule')),
                                     reply_action = rule_action rule'\<rparr>),
                          AList.update (rule_id rule') rule' rules)))"

section \<open>Broadcast service\<close>

subsection \<open>Campaigns\<close>

datatype recipient_status = Pending | Sent | Failed

record recipient =
  recipient_chatId :: string
  recipient_status :: recipient_status
  sentAt :: "string option"
  recipient_error :: "string option"

datatype broadcast_status = Created | Running | Paused | Completed | Cancelled

record stats =
  stats_total :: int
  stats_sent :: int
  stats_failed :: int
  stats_pending :: int

record broadcast =
  b_id :: string
  b_name :: string
  b_sessionId :: string
  b_message :: string
  mediaUrl :: "string option"
  mediaType :: "string option"
  caption :: "string option"
  scheduledAt :: "string option"
  recipients :: "recipient list"
  status :: broadcast_status
  stats :: stats
  createdAt :: string
  startedAt :: "string option"
  completedAt :: "string option"
  currentIndex :: nat

text \<open>The rate limits of the constructor.\<close>

record config =
  minDelay :: int
  maxDelay :: int
  batchSize :: int
  batchDelay :: int
  maxPerHour :: int

definition default_config :: config where
  "default_config = \<lparr>minDelay = 3000, maxDelay = 8000, batchSize = 10, batchDelay = 30000,
     maxPerHour = 100\<rparr>"

subsection \<open>The session gateway and what the service does to the outside\<close>

text \<open>
  The WhatsApp manager is external: \<open>getSession\<close> maps a session id to a session
  handle or to nothing. A send is a call on the handle; its result comes back later,
  as a response object or as an exception with a message.
\<close>

record session =
  connectionStatus :: string

type_synonym manager = "string \<Rightarrow> session option"

datatype send_outcome = Resolved bool "string option" | Rejected "string option"

datatype effect =
    SendTextMessage string string int
  | SendImage string string string int
  | SendDocument string string string string int
  | Sleep int

subsection \<open>The state of the service\<close>

text \<open>
  Campaign objects are shared between the \<open>broadcasts\<close> map and the running
  invocations of \<open>_processQueue\<close>, which keep their object after it has left the map:
  objects live in a store, at references handed out by \<open>next_ref\<close>. An invocation of
  \<open>_processQueue\<close> is suspended at its \<open>await\<close> of a send (with the recipient it
  read, by its index) or of a timer, or has returned. \<open>bid\<close> stands for the
  \<open>id\<close> of the code throughout.

  Two fields are not fields of the class: \<open>dataFile\<close> is the content of the data
  file that \<open>_saveBroadcasts\<close> writes, and \<open>trace\<close> lists, in order, the sends
  issued to the session and the timers set. The WebSocket notifications are left out.
\<close>

datatype suspension = AwaitSend nat | AwaitTimer | Returned

record task =
  task_id :: string
  task_broadcast :: nat
  messagesInBatch :: int
  suspended :: suspension

record service =
  broadcasts :: "(string \<times> nat) list"
  heap :: "nat \<Rightarrow> broadcast"
  next_ref :: nat
  whatsappManager :: "manager option"
  activeQueues :: "string set"
  config :: config
  tasks :: "task list"
  dataFile :: "broadcast list"
  trace :: "effect list"

text \<open>The service of a fresh process with no data file. The cells of the store that
  are not allocated hold a campaign without recipients.\<close>

definition blank :: broadcast where
  "blank = \<lparr>b_id = [], b_name = [], b_sessionId = [], b_message = [], mediaUrl = None,
     mediaType = None, caption = None, scheduledAt = None, recipients = [],
     status = Created,
     stats = \<lparr>stats_total = 0, stats_sent = 0, stats_failed = 0, stats_pending = 0\<rparr>,
     createdAt = [], startedAt = None, completedAt = None, currentIndex = 0\<rparr>"

definition new_service :: service where
  "new_service = \<lparr>broadcasts = [], heap = (\<lambda>ref. blank), next_ref = 0,
     whatsappManager = None, activeQueues = {}, config = default_config, tasks = [],
     dataFile = [], trace = []\<rparr>"

text \<open>\<open>this.broadcasts.get(bid)\<close>, \<open>this.broadcasts.set(bid, broadcast)\<close> for the
  object at \<open>ref\<close>, and \<open>_saveBroadcasts\<close> (the write is taken to succeed).\<close>

definition broadcasts_get :: "service \<Rightarrow> string \<Rightarrow> broadcast option" where
  "broadcasts_get s bid = map_option (heap s) (map_of (broadcasts s) bid)"

definition broadcasts_set :: "string \<Rightarrow> nat \<Rightarrow> service \<Rightarrow> service" where
  "broadcasts_set bid ref s = s\<lparr>broadcasts := AList.update bid ref (broadcasts s)\<rparr>"

definition saveBroadcasts :: "service \<Rightarrow> service" where
  "saveBroadcasts s = s\<lparr>dataFile := map (\<lambda>(bid, ref). heap s ref) (broadcasts s)\<rparr>"

text \<open>An assignment to fields of the object at \<open>ref\<close>.\<close>

definition assign :: "nat \<Rightarrow> broadcast \<Rightarrow> service \<Rightarrow> service" where
  "assign ref b s = s\<lparr>heap := (heap s)(ref := b)\<rparr>"

definition perform :: "effect \<Rightarrow> service \<Rightarrow> service" where
  "perform e s = s\<lparr>trace := trace s @ [e]\<rparr>"

text \<open>A response of the service: \<open>{success: false, message}\<close> or
  \<open>{success: true, message, data}\<close>.\<close>

datatype 'a response = Failure string | Success string 'a

subsection \<open>\<open>_getRandomDelay\<close>\<close>

text \<open>\<open>Math.random()\<close> is a parameter \<open>u\<close>, a real number with \<open>0 \<le> u < 1\<close>.\<close>

definition getRandomDelay :: "config \<Rightarrow> real \<Rightarrow> int" where
  "getRandomDelay c u = \<lfloor>u * of_int (maxDelay c - minDelay c + 1)\<rfloor> + minDelay c"

subsection \<open>\<open>create\<close>\<close>

text \<open>
  The options of \<open>create\<close>. A text option is absent or a text, and falsy when absent
  or empty. \<open>recipients\<close> is any value: a falsy one, a truthy one that is not an
  array, or an array of chat ids. A truthy \<open>scheduledAt\<close> is a date text that
  \<open>new Date(...).toISOString()\<close> renders, or one on which it throws.
\<close>

datatype recipients_arg = Falsy | NotAnArray | Array "string list"

datatype date_arg = InvalidDate | ValidDate string

record create_options =
  opt_name :: "string option"
  opt_sessionId :: "string option"
  opt_recipients :: recipients_arg
  opt_message :: "string option"
  opt_mediaUrl :: "string option"
  opt_mediaType :: "string option"
  opt_caption :: "string option"
  opt_scheduledAt :: "date_arg option"

definition text_of :: "string option \<Rightarrow> string" where
  "text_of a = (case a of None \<Rightarrow> [] | Some t \<Rightarrow> t)"

definition or_null :: "string option \<Rightarrow> string option" where
  "or_null a = (if truthy a then a else None)"

definition toISOString_of :: "date_arg option \<Rightarrow> js_error + string option" where
  "toISOString_of a =
     (case a of
        None \<Rightarrow> Inr None
      | Some InvalidDate \<Rightarrow> Inl (RangeError ''Invalid time value'')
      | Some (ValidDate d) \<Rightarrow> Inr (Some d))"

definition create ::
  "service \<Rightarrow> string \<Rightarrow> clock \<Rightarrow> create_options \<Rightarrow> js_error + (broadcast response \<times> service)" where
  "create s bid now options =
     (if \<not> truthy (opt_name options) \<or> \<not> truthy (opt_sessionId options) \<or>
         opt_recipients options = Falsy \<or> \<not> truthy (opt_message options)
      then Inr (Failure ''Missing required fields: name, sessionId, recipients, message'', s)
      else
        (case opt_recipients options of
           Falsy \<Rightarrow>
             Inr (Failure ''Missing required fields: name, sessionId, recipients, message'', s)
         | NotAnArray \<Rightarrow> Inr (Failure ''Recipients must be a non-empty array'', s)
         | Array rs \<Rightarrow>
             if length rs = 0 then Inr (Failure ''Recipients must be a non-empty array'', s)
             else
               (case toISOString_of (opt_scheduledAt options) of
                  Inl e \<Rightarrow> Inl e
                | Inr scheduled \<Rightarrow>
                    let broadcast =
                          \<lparr>b_id = bid,
                           b_name = text_of (opt_name options),
                           b_sessionId = text_of (opt_sessionId options),
                           b_message = text_of (opt_message options),
                           mediaUrl = or_null (opt_mediaUrl options),
                           mediaType = or_null (opt_mediaType options),
                           caption = or_null (opt_caption options),
                           scheduledAt = scheduled,
                           recipients =
                             map (\<lambda>r. \<lparr>recipient_chatId = r, recipient_status = Pending,
                                        sentAt = None, recipient_error = None\<rparr>) rs,
                           status = Created,
                           stats = \<lparr>stats_total = int (length rs), stats_sent = 0,
                                    stats_failed = 0, stats_pending = int (length rs)\<rparr>,
                           createdAt = toISOString now,
                           startedAt = None,
                           completedAt = None,
                           currentIndex = 0\<rparr>;
                        ref = next_ref s;
                        s1 = assign ref broadcast (s\<lparr>next_ref := Suc ref\<rparr>);
                        s2 = broadcasts_set bid ref s1;
                        s3 = saveBroadcasts s2
                    in Inr (Success ''Broadcast created'' broadcast, s3))))"

subsection \<open>\<open>_processQueue\<close>\<close>

text \<open>The send that the loop issues for a recipient.\<close>

definition send_call :: "broadcast \<Rightarrow> recipient \<Rightarrow> effect" where
  "send_call broadcast recipient =
     (if truthy (mediaUrl broadcast) \<and> mediaType broadcast = Some ''image''
      then SendImage (recipient_chatId recipient) (text_of (mediaUrl broadcast))
             (if truthy (caption broadcast) then text_of (caption broadcast)
              else b_message broadcast) 1000
      else if truthy (mediaUrl broadcast) \<and> mediaType broadcast = Some ''document''
      then SendDocument (recipient_chatId recipient) (text_of (mediaUrl broadcast))
             ''document'' ''application/octet-stream'' 1000
      else SendTextMessage (recipient_chatId recipient) (b_message broadcast) 1000)"

text \<open>
  The \<open>while\<close> loop from its head, run by an invocation for the campaign \<open>bid\<close>
  whose object is at \<open>ref\<close>, up to the point where it suspends on a send
  (\<open>AwaitSend\<close> with the index of the recipient) or leaves the loop (\<open>Returned\<close>:
  by \<open>break\<close>, or because the cursor has reached the end). Recipients that are not
  pending are skipped on the way.
\<close>

function queue_loop :: "service \<Rightarrow> string \<Rightarrow> nat \<Rightarrow> service \<times> suspension" where
  "queue_loop s bid ref =
     (let broadcast = heap s ref in
      if currentIndex broadcast < length (recipients broadcast) then
        (case broadcasts_get s bid of
           None \<Rightarrow> (s, Returned)
         | Some currentBroadcast \<Rightarrow>
             if status currentBroadcast \<noteq> Running then (s, Returned)
             else
               let recipient = recipients broadcast ! currentIndex broadcast in
               if recipient_status recipient \<noteq> Pending
               then queue_loop
                      (assign ref (broadcast\<lparr>currentIndex := currentIndex broadcast + 1\<rparr>) s)
                      bid ref
               else (perform (send_call broadcast recipient) s,
                     AwaitSend (currentIndex broadcast)))
      else (s, Returned))"
  by pat_completeness auto
termination
  by (relation "measure (\<lambda>(s, bid, ref).
         length (recipients (heap s ref)) - currentIndex (heap s ref))")
     (auto simp: assign_def)

text \<open>The code after the loop: completion when the cursor is at the end, then the
  store, the file and \<open>activeQueues\<close>.\<close>

definition queue_end :: "service \<Rightarrow> string \<Rightarrow> nat \<Rightarrow> clock \<Rightarrow> service" where
  "queue_end s bid ref now =
     (let broadcast = heap s ref;
          s1 = (if currentIndex broadcast \<ge> length (recipients broadcast)
                then assign ref (broadcast\<lparr>status := Completed,
                                          completedAt := Some (toISOString now)\<rparr>) s
                else s);
          s2 = saveBroadcasts (broadcasts_set bid ref s1)
      in s2\<lparr>activeQueues := activeQueues s2 - {bid}\<rparr>)"

text \<open>
  A call of \<open>_processQueue(bid)\<close>, up to its first \<open>await\<close> or its return. Without a
  manager the call ends in a \<open>TypeError\<close> that rejects its promise, which nobody
  awaits.
\<close>

definition processQueue :: "service \<Rightarrow> string \<Rightarrow> clock \<Rightarrow> service" where
  "processQueue s bid now =
     (case map_of (broadcasts s) bid of
        None \<Rightarrow> s
      | Some ref \<Rightarrow>
          let broadcast = heap s ref in
          if status broadcast \<noteq> Running then s
          else
            let s1 = s\<lparr>activeQueues := insert bid (activeQueues s)\<rparr> in
            (case whatsappManager s1 of
               None \<Rightarrow> s1
             | Some getSession \<Rightarrow>
                 if (case getSession (b_sessionId broadcast) of
                       None \<Rightarrow> True
                     | Some session \<Rightarrow> connectionStatus session \<noteq> ''connected'')
                 then
                   let s2 = saveBroadcasts
                              (broadcasts_set bid ref
                                 (assign ref (broadcast\<lparr>status := Paused\<rparr>) s1))
                   in s2\<lparr>activeQueues := activeQueues s2 - {bid}\<rparr>
                 else
                   let (s2, w) = queue_loop s1 bid ref in
                   if w = Returned then queue_end s2 bid ref now
                   else s2\<lparr>tasks := tasks s2 @
                           [\<lparr>task_id = bid, task_broadcast = ref, messagesInBatch = 0,
                             suspended = w\<rparr>]\<rparr>))"

text \<open>
  The end of the \<open>try\<close> block and its \<open>catch\<close>: the result of the send, written
  on the recipient that the invocation had read (at index \<open>i\<close>) and into the counts.
\<close>

definition settle :: "send_outcome \<Rightarrow> clock \<Rightarrow> nat \<Rightarrow> broadcast \<Rightarrow> broadcast" where
  "settle outcome now i broadcast =
     (let recipient = recipients broadcast ! i;
          st = stats broadcast;
          sent = (recipient\<lparr>recipient_status := Sent, sentAt := Some (toISOString now)\<rparr>,
                  st\<lparr>stats_sent := stats_sent st + 1,
                     stats_pending := stats_pending st - 1\<rparr>);
          failed = (\<lambda>m. (recipient\<lparr>recipient_status := Failed, recipient_error := m\<rparr>,
                         st\<lparr>stats_failed := stats_failed st + 1,
                            stats_pending := stats_pending st - 1\<rparr>));
          (recipient', st') =
             (case outcome of
                Resolved success m \<Rightarrow> if success then sent else failed m
              | Rejected m \<Rightarrow> failed m)
      in broadcast\<lparr>recipients := (recipients broadcast)[i := recipient'], stats := st'\<rparr>)"

text \<open>
  The invocation \<open>k\<close> resumes when its send has settled with \<open>outcome\<close>: it records
  the result, advances the cursor, stores and saves, and suspends on the batch pause
  or on a random delay. (The counter of the batch is a local variable; its reset after
  the pause is done here.)
\<close>

definition after_send :: "service \<Rightarrow> nat \<Rightarrow> send_outcome \<Rightarrow> real \<Rightarrow> clock \<Rightarrow> service" where
  "after_send s k outcome u now =
     (let t = tasks s ! k; bid = task_id t; ref = task_broadcast t in
      case suspended t of
        AwaitSend i \<Rightarrow>
          let broadcast = settle outcome now i (heap s ref);
              broadcast' = broadcast\<lparr>currentIndex := currentIndex broadcast + 1\<rparr>;
              n = messagesInBatch t + 1;
              s1 = saveBroadcasts (broadcasts_set bid ref (assign ref broadcast' s))
          in if n \<ge> batchSize (config s)
             then (perform (Sleep (batchDelay (config s))) s1)
                    \<lparr>tasks := (tasks s1)[k := t\<lparr>messagesInBatch := 0,
                                               suspended := AwaitTimer\<rparr>]\<rparr>
             else (perform (Sleep (getRandomDelay (config s) u)) s1)
                    \<lparr>tasks := (tasks s1)[k := t\<lparr>messagesInBatch := n,
                                               suspended := AwaitTimer\<rparr>]\<rparr>
      | _ \<Rightarrow> s)"

text \<open>The invocation \<open>k\<close> resumes when its timer has fired: back to the head of
  the loop.\<close>

definition after_delay :: "service \<Rightarrow> nat \<Rightarrow> clock \<Rightarrow> service" where
  "after_delay s k now =
     (let t = tasks s ! k in
      case suspended t of
        AwaitTimer \<Rightarrow>
          let (s1, w) = queue_loop s (task_id t) (task_broadcast t) in
          if w = Returned
          then (queue_end s1 (task_id t) (task_broadcast t) now)
                 \<lparr>tasks := (tasks s1)[k := t\<lparr>suspended := Returned\<rparr>]\<rparr>
          else s1\<lparr>tasks := (tasks s1)[k := t\<lparr>suspended := w\<rparr>]\<rparr>
      | _ \<Rightarrow> s)"

subsection \<open>\<open>start\<close>, \<open>pause\<close>, \<open>cancel\<close> and \<open>delete\<close>\<close>

definition start :: "service \<Rightarrow> string \<Rightarrow> clock \<Rightarrow> broadcast response \<times> service" where
  "start s bid now =
     (case map_of (broadcasts s) bid of
        None \<Rightarrow> (Failure ''Broadcast not found'', s)
      | Some ref \<Rightarrow>
          let broadcast = heap s ref in
          if status broadcast = Running then (Failure ''Broadcast is already running'', s)
          else if status broadcast = Completed
          then (Failure ''Broadcast is already completed'', s)
          else
            (case whatsappManager s of
               None \<Rightarrow> (Failure ''WhatsApp Manager not initialized'', s)
             | Some getSession \<Rightarrow>
                 (case getSession (b_sessionId broadcast) of
                    None \<Rightarrow>
                      (Failure (''Session '' @ b_sessionId broadcast @ '' not found''), s)
                  | Some session \<Rightarrow>
                      if connectionStatus session \<noteq> ''connected''
                      then (Failure (''Session '' @ b_sessionId broadcast @
                                     '' is not connected''), s)
                      else
                        let broadcast' =
                              broadcast\<lparr>status := Running,
                                        startedAt := (if truthy (startedAt broadcast)
                                                      then startedAt broadcast
                                                      else Some (toISOString now))\<rparr>;
                            s1 = saveBroadcasts
                                   (broadcasts_set bid ref (assign ref broadcast' s));
                            s2 = processQueue s1 bid now
                        in (Success ''Broadcast started'' (heap s2 ref), s2))))"

definition pause :: "service \<Rightarrow> string \<Rightarrow> broadcast response \<times> service" where
  "pause s bid =
     (case map_of (broadcasts s) bid of
        None \<Rightarrow> (Failure ''Broadcast not found'', s)
      | Some ref \<Rightarrow>
          let broadcast = heap s ref in
          if status broadcast \<noteq> Running then (Failure ''Broadcast is not running'', s)
          else
            let broadcast' = broadcast\<lparr>status := Paused\<rparr>;
                s1 = saveBroadcasts (broadcasts_set bid ref (assign ref broadcast' s))
            in (Success ''Broadcast paused'' broadcast', s1))"

definition cancel :: "service \<Rightarrow> string \<Rightarrow> broadcast response \<times> service" where
  "cancel s bid =
     (case map_of (broadcasts s) bid of
        None \<Rightarrow> (Failure ''Broadcast not found'', s)
      | Some ref \<Rightarrow>
          let broadcast = heap s ref in
          if status broadcast = Completed
          then (Failure ''Cannot cancel completed broadcast'', s)
          else
            let broadcast' = broadcast\<lparr>status := Cancelled\<rparr>;
                s1 = saveBroadcasts (broadcasts_set bid ref (assign ref broadcast' s))
            in (Success ''Broadcast cancelled'' broadcast', s1))"

definition delete :: "service \<Rightarrow> string \<Rightarrow> unit response \<times> service" where
  "delete s bid =
     (case map_of (broadcasts s) bid of
        None \<Rightarrow> (Failure ''Broadcast not found'', s)
      | Some ref \<Rightarrow>
          let broadcast = heap s ref in
          if status broadcast = Running
          then (Failure ''Cannot delete running broadcast. Pause or cancel first.'', s)
          else (Success ''Broadcast deleted'' (),
                saveBroadcasts (s\<lparr>broadcasts := AList.delete bid (broadcasts s)\<rparr>)))"

subsection \<open>Runs of the service\<close>

text \<open>
  The process is single-threaded: between two \<open>await\<close>s the code runs without
  interruption, and what can happen to the service is one of these events. An operator
  calls \<open>create\<close> (with the UUID drawn), \<open>start\<close>, \<open>pause\<close>, \<open>cancel\<close> or
  \<open>delete\<close>; the send awaited by an invocation settles, with the value of
  \<open>Math.random()\<close> that the invocation may draw; the timer of an invocation fires;
  the manager is set or the sessions behind it change; the process is restarted, and
  the constructor builds the service again from the data file, every record of the
  file a new object (the invocations of the old process are gone).
\<close>

definition loadBroadcasts :: "broadcast list \<Rightarrow> service \<Rightarrow> service" where
  "loadBroadcasts records s =
     fold (\<lambda>b s. broadcasts_set (b_id b) (next_ref s)
                    (assign (next_ref s) b (s\<lparr>next_ref := Suc (next_ref s)\<rparr>)))
       records s"

definition restart :: "service \<Rightarrow> service" where
  "restart s = loadBroadcasts (dataFile s) (new_service\<lparr>dataFile := dataFile s, trace := trace s\<rparr>)"

datatype event =
    Create string clock create_options
  | Start string clock
  | Pause string
  | Cancel string
  | Delete string
  | SendSettled nat send_outcome real clock
  | TimerFired nat clock
  | SetWhatsAppManager "manager option"
  | Restart

definition awaits_send :: "task \<Rightarrow> bool" where
  "awaits_send t = (case suspended t of AwaitSend i \<Rightarrow> True | _ \<Rightarrow> False)"

fun fire :: "service \<Rightarrow> event \<Rightarrow> service option" where
  "fire s (Create bid now options) =
     (case create s bid now options of Inl e \<Rightarrow> Some s | Inr (r, s') \<Rightarrow> Some s')"
| "fire s (Start bid now) = Some (snd (start s bid now))"
| "fire s (Pause bid) = Some (snd (pause s bid))"
| "fire s (Cancel bid) = Some (snd (cancel s bid))"
| "fire s (Delete bid) = Some (snd (delete s bid))"
| "fire s (SendSettled k outcome u now) =
     (if k < length (tasks s) \<and> awaits_send (tasks s ! k) \<and> 0 \<le> u \<and> u < 1
      then Some (after_send s k outcome u now) else None)"
| "fire s (TimerFired k now) =
     (if k < length (tasks s) \<and> suspended (tasks s ! k) = AwaitTimer
      then Some (after_delay s k now) else None)"
| "fire s (SetWhatsAppManager m) = Some (s\<lparr>whatsappManager := m\<rparr>)"
| "fire s Restart = Some (restart s)"

fun run :: "service \<Rightarrow> event list \<Rightarrow> service option" where
  "run s [] = Some s"
| "run s (e # es) = (case fire s e of None \<Rightarrow> None | Some s' \<Rightarrow> run s' es)"

text \<open>The same, where an event that cannot fire is ignored.\<close>

fun play :: "service \<Rightarrow> event list \<Rightarrow> service" where
  "play s [] = s"
| "play s (e # es) = play (case fire s e of None \<Rightarrow> s | Some s' \<Rightarrow> s') es"

inductive reachable :: "service \<Rightarrow> bool" where
  initial: "reachable new_service"
| step: "reachable s \<Longrightarrow> fire s e = Some s' \<Longrightarrow> reachable s'"

section \<open>Verification of the auto-reply matcher\<close>

subsection \<open>Keyword triggers\<close>

text \<open>
  What it means for two texts to be equal up to the case of their letters is stated
  without \<open>toLowerCase\<close>: the alphabet is written in its two cases, a capital and a
  small letter at the same place of the two lists are the same letter, and two texts are
  equal ignoring case when they have the same length and, place by place, the same
  letter.
\<close>

definition capital_letters :: string where
  "capital_letters =
     ''ABCDEFGHIJKLMNOPQRSTUVWXYZ'' @ map char_of ([192..<215] @ [216..<223] :: nat list)"

definition small_letters :: string where
  "small_letters =
     ''abcdefghijklmnopqrstuvwxyz'' @ map char_of ([224..<247] @ [248..<255] :: nat list)"

definition same_letter :: "char \<Rightarrow> char \<Rightarrow> bool" where
  "same_letter c d =
     (c = d \<or> (c, d) \<in> set (zip capital_letters small_letters)
            \<or> (d, c) \<in> set (zip capital_letters small_letters))"

definition equal_ignoring_case :: "string \<Rightarrow> string \<Rightarrow> bool" where
  "equal_ignoring_case a b = list_all2 same_letter a b"






















definition price_trigger :: trigger where
  "price_trigger = \<lparr>trigger_type = ''keyword'', trigger_keywords = [''price''],
     matchType = ''contains'', pattern = [], flags = ''i''\<rparr>"



text \<open>
  Examples. \<open>toLowerCase\<close> lowers the capitals of a text, also those of the Latin-1
  Supplement (U+00C9 becomes U+00E9, the multiplication sign U+00D7 stays), and
  equality ignoring case, computed from the two alphabets alone, holds between
  \<open>PRICE\<close> and \<open>Price\<close> and fails between \<open>PRICE\<close> and \<open>prize\<close>.
\<close>

lemma toLowerCase_example:
  "toLowerCase ''What is the PRICE?'' = ''what is the price?'' \<and>
   toLowerCase [CHR 0xC9, CHR 0xD7, CHR 0xDE, CHR 0xDF] = [CHR 0xE9, CHR 0xD7, CHR 0xFE, CHR 0xDF]"
  by (simp add: toLowerCase_def toLowerCase_char_def is_capital_def char_of_def bit_Suc_0_iff)

lemma equal_ignoring_case_example:
  "equal_ignoring_case ''PRICE'' ''Price'' \<and> \<not> equal_ignoring_case ''PRICE'' ''prize'' \<and>
   \<not> equal_ignoring_case ''PRICE'' ''PRICES''"
  by (simp add: equal_ignoring_case_def same_letter_def capital_letters_def small_letters_def
        char_of_def)


subsection \<open>Regular-expression triggers\<close>

text \<open>
  Claim C6. When the pattern and flags of a \<open>regex\<close> trigger do not compile (the
  constructor throws), \<open>_matchesTrigger\<close> returns false for every message text: the
  result is a returned value, never an exception.
\<close>

theorem invalid_regex_never_matches:
  assumes "trigger_type trigger = ''regex''"
    and "RegExp (pattern trigger) (if flags trigger = [] then ''i'' else flags trigger) = Inl e"
  shows "matchesTrigger RegExp trigger messageText = Inr False"
  using assms by (simp add: matchesTrigger_def Let_def)

text \<open>A small engine for the examples: it rejects the pattern \<open>(\<close> and reads
  every other pattern as a literal text to be found.\<close>

definition literal_regexp :: regexp_engine where
  "literal_regexp p f =
     (if p = ''('' then Inl (SyntaxError ''Invalid regular expression: /(/: Unterminated group'')
      else Inr (\<lambda>t. str_includes t p))"

definition broken_regex_trigger :: trigger where
  "broken_regex_trigger = \<lparr>trigger_type = ''regex'', trigger_keywords = [],
     matchType = ''contains'', pattern = ''('', flags = ''i''\<rparr>"

theorem invalid_regex_never_matches_witness:
  "trigger_type broken_regex_trigger = ''regex'' \<and>
   literal_regexp (pattern broken_regex_trigger) ''i'' =
     Inl (SyntaxError ''Invalid regular expression: /(/: Unterminated group'') \<and>
   matchesTrigger literal_regexp broken_regex_trigger ''(hello)'' = Inr False"
proof -
  have a: "trigger_type broken_regex_trigger = ''regex''"
    by (simp add: broken_regex_trigger_def)
  have b: "literal_regexp (pattern broken_regex_trigger)
             (if flags broken_regex_trigger = [] then ''i'' else flags broken_regex_trigger) =
           Inl (SyntaxError ''Invalid regular expression: /(/: Unterminated group'')"
    by (simp add: broken_regex_trigger_def literal_regexp_def)
  from invalid_regex_never_matches
         [where RegExp = literal_regexp and trigger = broken_regex_trigger, OF a b]
  have "matchesTrigger literal_regexp broken_regex_trigger ''(hello)'' = Inr False" .
  with a b show ?thesis by (simp add: broken_regex_trigger_def)
qed

subsection \<open>The time-range condition\<close>

lemma overnight_outside:
  assumes "js_gt startTime endTime"
  shows "js_lt (Num c) startTime \<or> js_gt (Num c) endTime"
  using assms by (cases startTime; cases endTime) (auto simp: js_gt_def)

text \<open>
  Claim C9. A rule whose time range is enabled and whose start, in minutes since
  midnight as the engine computes them from the text of the start, is strictly greater
  than its end (an overnight window such as 22:00 to 06:00) matches at no time of day:
  \<open>_matchesRule\<close> returns false whatever the clock, the text and the chat. This
  holds for every engine, that is, however \<open>Number\<close> reads the two texts and
  however the product and the sum are rounded.
\<close>

theorem overnight_window_never_matches:
  assumes "tr_enabled (timeRange (rule_conditions rule))"
    and "js_gt (time_of js (tr_start (timeRange (rule_conditions rule))))
               (time_of js (tr_end (timeRange (rule_conditions rule))))"
  shows "matchesRule RegExp js now rule messageText chatId isGroup = Inr False"
  using assms(1) overnight_outside [OF assms(2)]
  by (simp add: matchesRule_def Let_def)

text \<open>
  An engine for the examples. Its \<open>Number\<close> trims the blanks at the two ends of the
  text and reads a text of decimal digits, the empty text as 0, every other text as
  \<open>NaN\<close>; its product and sum are exact on finite numbers and \<open>NaN\<close>
  otherwise. It agrees with JavaScript on the texts of the examples.
\<close>

definition is_blank :: "char \<Rightarrow> bool" where
  "is_blank c = ((of_char c :: nat) \<in> {9, 10, 11, 12, 13, 32, 160})"

definition trim :: "string \<Rightarrow> string" where
  "trim s = rev (dropWhile is_blank (rev (dropWhile is_blank s)))"

definition digit_of :: "char \<Rightarrow> nat option" where
  "digit_of c =
     (let n = (of_char c :: nat) in if 48 \<le> n \<and> n \<le> 57 then Some (n - 48) else None)"

fun digits_value :: "nat \<Rightarrow> string \<Rightarrow> nat option" where
  "digits_value acc [] = Some acc"
| "digits_value acc (c # cs) =
     (case digit_of c of None \<Rightarrow> None | Some d \<Rightarrow> digits_value (10 * acc + d) cs)"

definition decimal_engine :: number_engine where
  "decimal_engine =
     \<lparr>Number = (\<lambda>s. case digits_value 0 (trim s) of None \<Rightarrow> NaN | Some n \<Rightarrow> Num (real n)),
      js_times = (\<lambda>a b. case (a, b) of (Num x, Num y) \<Rightarrow> Num (x * y) | _ \<Rightarrow> NaN),
      js_plus = (\<lambda>a b. case (a, b) of (Num x, Num y) \<Rightarrow> Num (x + y) | _ \<Rightarrow> NaN)\<rparr>"

definition night_rule :: rule where
  "night_rule = \<lparr>rule_id = ''r1'', rule_name = ''night shift'', rule_sessionId = ''*'',
     rule_trigger = \<lparr>trigger_type = ''all'', trigger_keywords = [], matchType = ''contains'',
       pattern = [], flags = ''i''\<rparr>,
     rule_conditions = \<lparr>chatType = ''all'',
       timeRange = \<lparr>tr_enabled = True, tr_start = ''22:00'', tr_end = ''06:00''\<rparr>,
       excludeContacts = []\<rparr>,
     rule_action = \<lparr>action_type = ''reply'', action_message = ''We are closed'',
       action_delay = 1000\<rparr>,
     priority = 0, enabled = True, rule_createdAt = ''2024-01-01T00:00:00.000Z'',
     matchCount = 0, lastMatchedAt = None\<rparr>"

text \<open>The same window, its end written with a blank after it.\<close>

definition blank_night_rule :: rule where
  "blank_night_rule = night_rule\<lparr>rule_conditions :=
     \<lparr>chatType = ''all'',
      timeRange = \<lparr>tr_enabled = True, tr_start = ''22:00'', tr_end = ''06:00 ''\<rparr>,
      excludeContacts = []\<rparr>\<rparr>"

definition at_2330 :: clock where
  "at_2330 = \<lparr>getHours = 23, getMinutes = 30, toISOString = ''2024-01-01T23:30:00.000Z'',
     toLocaleTimeString = ''23.30'', toLocaleDateString = ''1/1/2024''\<rparr>"

definition at_0300 :: clock where
  "at_0300 = \<lparr>getHours = 3, getMinutes = 0, toISOString = ''2024-01-02T03:00:00.000Z'',
     toLocaleTimeString = ''03.00'', toLocaleDateString = ''2/1/2024''\<rparr>"

lemmas number_defs = time_of_def decimal_engine_def trim_def is_blank_def digit_of_def
  element_def

lemma time_of_2200: "time_of decimal_engine ''22:00'' = Num 1320"
  by (simp add: number_defs)

lemma time_of_0600: "time_of decimal_engine ''06:00'' = Num 360"
  by (simp add: number_defs)

lemma time_of_0600_blank: "time_of decimal_engine ''06:00 '' = Num 360"
  by (simp add: number_defs)

theorem overnight_window_never_matches_witness:
  "tr_enabled (timeRange (rule_conditions night_rule)) \<and>
   time_of decimal_engine (tr_start (timeRange (rule_conditions night_rule))) = Num 1320 \<and>
   time_of decimal_engine (tr_end (timeRange (rule_conditions night_rule))) = Num 360 \<and>
   matchesRule literal_regexp decimal_engine at_2330 night_rule ''hello''
     ''628123@s.whatsapp.net'' False = Inr False \<and>
   matchesRule literal_regexp decimal_engine at_0300 night_rule ''hello''
     ''628123@s.whatsapp.net'' False = Inr False \<and>
   tr_enabled (timeRange (rule_conditions blank_night_rule)) \<and>
   time_of decimal_engine (tr_end (timeRange (rule_conditions blank_night_rule))) = Num 360 \<and>
   matchesRule literal_regexp decimal_engine at_2330 blank_night_rule ''hello''
     ''628123@s.whatsapp.net'' False = Inr False"
proof -
  have a: "tr_enabled (timeRange (rule_conditions night_rule))"
    by (simp add: night_rule_def)
  have s: "time_of decimal_engine (tr_start (timeRange (rule_conditions night_rule))) = Num 1320"
    by (simp add: night_rule_def time_of_2200)
  have e: "time_of decimal_engine (tr_end (timeRange (rule_conditions night_rule))) = Num 360"
    by (simp add: night_rule_def time_of_0600)
  have b: "js_gt (time_of decimal_engine (tr_start (timeRange (rule_conditions night_rule))))
                 (time_of decimal_engine (tr_end (timeRange (rule_conditions night_rule))))"
    unfolding s e by (simp add: js_gt_def)
  have a': "tr_enabled (timeRange (rule_conditions blank_night_rule))"
    by (simp add: blank_night_rule_def)
  have s': "time_of decimal_engine (tr_start (timeRange (rule_conditions blank_night_rule))) = Num 1320"
    by (simp add: blank_night_rule_def time_of_2200)
  have e': "time_of decimal_engine (tr_end (timeRange (rule_conditions blank_night_rule))) = Num 360"
    by (simp add: blank_night_rule_def time_of_0600_blank)
  have b': "js_gt (time_of decimal_engine (tr_start (timeRange (rule_conditions blank_night_rule))))
                  (time_of decimal_engine (tr_end (timeRange (rule_conditions blank_night_rule))))"
    unfolding s' e' by (simp add: js_gt_def)
  from overnight_window_never_matches [OF a b] overnight_window_never_matches [OF a' b']
    a s e a' e'
  show ?thesis by simp
qed

subsection \<open>Rule selection\<close>

text \<open>The sort keeps the elements and orders them by descending priority.\<close>

lemma set_insert_by: "set (insert_by cmp x ys) = insert x (set ys)"
  by (induction ys) auto

lemma set_js_sort: "set (js_sort cmp xs) = set xs"
  unfolding js_sort_def by (induction xs) (auto simp: set_insert_by)

lemma sorted_insert_by_priority:
  "sorted_wrt (\<lambda>a b. priority b \<le> priority a) ys \<Longrightarrow>
   sorted_wrt (\<lambda>a b. priority b \<le> priority a) (insert_by cmp_priority x ys)"
proof (induction ys)
  case Nil
  then show ?case by simp
next
  case (Cons y ys)
  show ?case
  proof (cases "cmp_priority x y \<le> 0")
    case True
    then have "priority y \<le> priority x" by (simp add: cmp_priority_def)
    with Cons.prems True show ?thesis by fastforce
  next
    case False
    then have "priority x \<le> priority y" by (simp add: cmp_priority_def)
    with Cons False show ?thesis by (auto simp: set_insert_by)
  qed
qed

lemma sorted_js_sort_priority:
  "sorted_wrt (\<lambda>a b. priority b \<le> priority a) (js_sort cmp_priority xs)"
  unfolding js_sort_def by (induction xs) (auto intro: sorted_insert_by_priority)

text \<open>The matcher returns a value on every rule, so the loop is a search for the
  first rule that matches.\<close>

lemma matchesTrigger_returns: "\<exists>b. matchesTrigger RegExp trigger messageText = Inr b"
  by (auto simp: matchesTrigger_def Let_def split: sum.splits)

lemma matchesRule_returns: "\<exists>b. matchesRule RegExp js now rule messageText chatId isGroup = Inr b"
  using matchesTrigger_returns by (auto simp: matchesRule_def Let_def)

lemma first_match_find:
  "first_match RegExp js now messageText chatId isGroup rs =
     Inr (find (\<lambda>rule. matchesRule RegExp js now rule messageText chatId isGroup = Inr True) rs)"
proof (induction rs)
  case Nil
  then show ?case by simp
next
  case (Cons r rs)
  obtain b where "matchesRule RegExp js now r messageText chatId isGroup = Inr b"
    using matchesRule_returns by blast
  with Cons show ?case by simp
qed

lemma set_applicableRules:
  "set (applicableRules rules sessionId) =
     {rule \<in> snd ` set rules. enabled rule \<and>
        (rule_sessionId rule = [] \<or> rule_sessionId rule = sessionId \<or> rule_sessionId rule = ''*'')}"
  by (auto simp: applicableRules_def set_js_sort)

lemma find_sorted_priority:
  assumes "sorted_wrt (\<lambda>a b. priority b \<le> priority a) xs"
    and "find P xs = Some r" and "other \<in> set xs" and "P other"
  shows "priority other \<le> priority r"
  using assms
proof (induction xs)
  case Nil
  then show ?case by simp
next
  case (Cons x xs)
  show ?case
  proof (cases "P x")
    case True
    with Cons.prems(2) have "r = x" by simp
    with Cons.prems(1,3) show ?thesis by auto
  next
    case False
    with Cons.prems have "find P xs = Some r" "other \<in> set xs" by auto
    with Cons show ?thesis by auto
  qed
qed

text \<open>
  Claim C3, as amended. For an inbound text message (not from the account itself, not
  a status broadcast, with a non-empty text), \<open>processMessage\<close> considers exactly
  the enabled rules whose \<open>sessionId\<close> is empty, is \<open>*\<close> or equals the inbound
  session; it orders them by descending priority and returns the action of the first
  of them that \<open>_matchesRule\<close> accepts (none when no rule matches). Only that rule's
  match count and time stamp change, and every other applicable rule that matches has
  a priority no higher than the one returned.
\<close>

theorem processMessage_first_match:
  assumes "\<not> fromMe (msg_key message)"
    and "remoteJid (msg_key message) \<noteq> ''status@broadcast''"
    and "extractMessageText message = Some messageText"
    and "messageText \<noteq> []"
    and "chatId = remoteJid (msg_key message)"
    and "matched = find (\<lambda>rule. matchesRule RegExp js now rule messageText chatId
                                  (endsWith chatId ''@g.us'') = Inr True)
                        (applicableRules rules sessionId)"
  shows "set (applicableRules rules sessionId) =
           {rule \<in> snd ` set rules. enabled rule \<and>
              (rule_sessionId rule = [] \<or> rule_sessionId rule = sessionId \<or>
               rule_sessionId rule = ''*'')} \<and>
         sorted_wrt (\<lambda>a b. priority b \<le> priority a) (applicableRules rules sessionId) \<and>
         (matched = None \<longrightarrow>
            processMessage RegExp js now rules sessionId message = (Inr None, rules)) \<and>
         (\<forall>rule. matched = Some rule \<longrightarrow>
            (\<exists>r. fst (processMessage RegExp js now rules sessionId message) = Inr (Some r) \<and>
                 reply_ruleId r = rule_id rule \<and> reply_ruleName r = rule_name rule \<and>
                 reply_chatId r = chatId \<and> reply_action r = rule_action rule) \<and>
            snd (processMessage RegExp js now rules sessionId message) =
              AList.update (rule_id rule)
                (rule\<lparr>matchCount := matchCount rule + 1,
                       lastMatchedAt := Some (toISOString now)\<rparr>) rules \<and>
            (\<forall>other \<in> set (applicableRules rules sessionId).
               matchesRule RegExp js now other messageText chatId (endsWith chatId ''@g.us'')
                 = Inr True \<longrightarrow> priority other \<le> priority rule))"
proof -
  have a: "set (applicableRules rules sessionId) =
           {rule \<in> snd ` set rules. enabled rule \<and>
              (rule_sessionId rule = [] \<or> rule_sessionId rule = sessionId \<or>
               rule_sessionId rule = ''*'')}"
    by (rule set_applicableRules)
  have b: "sorted_wrt (\<lambda>a b. priority b \<le> priority a) (applicableRules rules sessionId)"
    unfolding applicableRules_def by (rule sorted_js_sort_priority)
  have fm: "first_match RegExp js now messageText chatId (endsWith chatId ''@g.us'')
              (applicableRules rules sessionId) = Inr matched"
    unfolding assms(6) by (rule first_match_find)
  have c: "matched = None \<longrightarrow>
           processMessage RegExp js now rules sessionId message = (Inr None, rules)"
    using assms(1-5) fm by (simp add: processMessage_def Let_def)
  have d: "matched = Some rule \<Longrightarrow>
           (\<exists>r. fst (processMessage RegExp js now rules sessionId message) = Inr (Some r) \<and>
                reply_ruleId r = rule_id rule \<and> reply_ruleName r = rule_name rule \<and>
                reply_chatId r = chatId \<and> reply_action r = rule_action rule) \<and>
           snd (processMessage RegExp js now rules sessionId message) =
             AList.update (rule_id rule)
               (rule\<lparr>matchCount := matchCount rule + 1,
                      lastMatchedAt := Some (toISOString now)\<rparr>) rules" for rule
    using assms(1-5) fm by (simp add: processMessage_def Let_def)
  have e: "priority other \<le> priority rule"
    if "matched = Some rule" and "other \<in> set (applicableRules rules sessionId)"
      and "matchesRule RegExp js now other messageText chatId (endsWith chatId ''@g.us'') = Inr True"
    for rule other
  proof -
    have "find (\<lambda>rule. matchesRule RegExp js now rule messageText chatId
                          (endsWith chatId ''@g.us'') = Inr True)
               (applicableRules rules sessionId) = Some rule"
      using that(1) assms(6) by simp
    from find_sorted_priority [OF b this that(2)] that(3) show ?thesis by simp
  qed
  show ?thesis
  proof (intro conjI allI impI ballI)
    show "set (applicableRules rules sessionId) =
           {rule \<in> snd ` set rules. enabled rule \<and>
              (rule_sessionId rule = [] \<or> rule_sessionId rule = sessionId \<or>
               rule_sessionId rule = ''*'')}"
      by (rule a)
    show "sorted_wrt (\<lambda>a b. priority b \<le> priority a) (applicableRules rules sessionId)"
      by (rule b)
    show "processMessage RegExp js now rules sessionId message = (Inr None, rules)"
      if "matched = None"
      using c that by simp
    show "\<exists>r. fst (processMessage RegExp js now rules sessionId message) = Inr (Some r) \<and>
                reply_ruleId r = rule_id rule \<and> reply_ruleName r = rule_name rule \<and>
                reply_chatId r = chatId \<and> reply_action r = rule_action rule"
      if "matched = Some rule" for rule
      using d [OF that] by (rule conjunct1)
    show "snd (processMessage RegExp js now rules sessionId message) =
             AList.update (rule_id rule)
               (rule\<lparr>matchCount := matchCount rule + 1,
                      lastMatchedAt := Some (toISOString now)\<rparr>) rules"
      if "matched = Some rule" for rule
      using d [OF that] by (rule conjunct2)
    show "priority other \<le> priority rule"
      if "matched = Some rule" and "other \<in> set (applicableRules rules sessionId)"
        and "matchesRule RegExp js now other messageText chatId (endsWith chatId ''@g.us'') = Inr True"
      for rule other
      using e [OF that] .
  qed
qed

text \<open>
  The example of the specification: two enabled rules that match the same text, with
  priorities 10 and 5, the one of priority 5 stored first. The reply is that of the
  rule of priority 10.
\<close>

definition price_rule :: "string \<Rightarrow> string \<Rightarrow> int \<Rightarrow> rule" where
  "price_rule rid sid prio = \<lparr>rule_id = rid, rule_name = ''price list'', rule_sessionId = sid,
     rule_trigger = price_trigger,
     rule_conditions = \<lparr>chatType = ''all'',
       timeRange = \<lparr>tr_enabled = False, tr_start = ''00:00'', tr_end = ''23:59''\<rparr>,
       excludeContacts = []\<rparr>,
     rule_action = \<lparr>action_type = ''reply'', action_message = ''Our prices: '' @ rid,
       action_delay = 1000\<rparr>,
     priority = prio, enabled = True, rule_createdAt = ''2024-01-01T00:00:00.000Z'',
     matchCount = 0, lastMatchedAt = None\<rparr>"

definition two_rules :: rules where
  "two_rules = [(''r5'', price_rule ''r5'' ''*'' 5), (''r10'', price_rule ''r10'' ''*'' 10)]"

definition price_message :: message where
  "price_message = \<lparr>msg_key = \<lparr>fromMe = False, remoteJid = ''628123@s.whatsapp.net''\<rparr>,
     pushName = Some ''Ana'',
     msg_message = Some \<lparr>conversation = Some ''what is the price?'',
       extendedTextMessage_text = None, imageMessage_caption = None,
       videoMessage_caption = None, documentMessage_caption = None\<rparr>\<rparr>"

lemma price_rule_matches:
  "matchesRule literal_regexp decimal_engine at_2330 (price_rule rid sid prio) ''what is the price?''
     ''628123@s.whatsapp.net'' False = Inr True"
  by (simp add: matchesRule_def price_rule_def matchesTrigger_def price_trigger_def
        keyword_matches_def toLowerCase_def toLowerCase_char_def startsWith_def)

lemma applicable_two_rules:
  "applicableRules two_rules ''s1'' = [price_rule ''r10'' ''*'' 10, price_rule ''r5'' ''*'' 5]"
  by (simp add: applicableRules_def two_rules_def js_sort_def cmp_priority_def price_rule_def)

lemma price_message_text: "extractMessageText price_message = Some ''what is the price?''"
  by (simp add: extractMessageText_def price_message_def js_or_def truthy_def)

lemma not_group: "endsWith ''628123@s.whatsapp.net'' ''@g.us'' = False"
  by (simp add: endsWith_def)

theorem processMessage_first_match_witness:
  "\<not> fromMe (msg_key price_message) \<and>
   remoteJid (msg_key price_message) \<noteq> ''status@broadcast'' \<and>
   extractMessageText price_message = Some ''what is the price?'' \<and>
   applicableRules two_rules ''s1'' = [price_rule ''r10'' ''*'' 10, price_rule ''r5'' ''*'' 5] \<and>
   priority (price_rule ''r10'' ''*'' 10) = 10 \<and> priority (price_rule ''r5'' ''*'' 5) = 5 \<and>
   matchesRule literal_regexp decimal_engine at_2330 (price_rule ''r5'' ''*'' 5) ''what is the price?''
     ''628123@s.whatsapp.net'' False = Inr True \<and>
   (\<exists>r. fst (processMessage literal_regexp decimal_engine at_2330 two_rules ''s1'' price_message) = Inr (Some r) \<and>
        reply_ruleId r = ''r10'' \<and>
        reply_action r = rule_action (price_rule ''r10'' ''*'' 10))"
proof -
  have a: "\<not> fromMe (msg_key price_message)" by (simp add: price_message_def)
  have b: "remoteJid (msg_key price_message) \<noteq> ''status@broadcast''"
    by (simp add: price_message_def)
  have c: "''what is the price?'' \<noteq> []" by simp
  have d: "''628123@s.whatsapp.net'' = remoteJid (msg_key price_message)"
    by (simp add: price_message_def)
  have f: "Some (price_rule ''r10'' ''*'' 10) =
           find (\<lambda>rule. matchesRule literal_regexp decimal_engine at_2330 rule ''what is the price?''
                          ''628123@s.whatsapp.net'' (endsWith ''628123@s.whatsapp.net'' ''@g.us'')
                        = Inr True)
                (applicableRules two_rules ''s1'')"
    unfolding applicable_two_rules not_group by (simp add: price_rule_matches)
  have id10: "rule_id (price_rule ''r10'' ''*'' 10) = ''r10''" by (simp add: price_rule_def)
  have p10: "priority (price_rule ''r10'' ''*'' 10) = 10" by (simp add: price_rule_def)
  have p5: "priority (price_rule ''r5'' ''*'' 5) = 5" by (simp add: price_rule_def)
  from processMessage_first_match [OF a b price_message_text c d f]
  have "\<exists>r. fst (processMessage literal_regexp decimal_engine at_2330 two_rules ''s1'' price_message) = Inr (Some r) \<and>
             reply_ruleId r = rule_id (price_rule ''r10'' ''*'' 10) \<and>
             reply_action r = rule_action (price_rule ''r10'' ''*'' 10)"
    by blast
  then have g: "\<exists>r. fst (processMessage literal_regexp decimal_engine at_2330 two_rules ''s1'' price_message) = Inr (Some r) \<and>
             reply_ruleId r = ''r10'' \<and>
             reply_action r = rule_action (price_rule ''r10'' ''*'' 10)"
    unfolding id10 .
  show ?thesis
    using a b price_message_text applicable_two_rules p10 p5
      price_rule_matches [of "''r5''" "''*''" 5] g
    by (intro conjI)
qed

text \<open>
  The claim as it was stated admits only the session ids \<open>*\<close> and the inbound
  session. The filter of the code also lets through a rule whose \<open>sessionId\<close> is
  falsy: a rule with the empty session id answers a message of session \<open>s1\<close>.
\<close>

text \<open>
  The reply template, on an example: every placeholder is replaced, and a dollar
  pattern in the name of the sender is expanded as \<open>String.prototype.replace\<close>
  expands it.
\<close>

lemma processReplyTemplate_example:
  "processReplyTemplate at_2330 ''Hi {name} ({sender}), it is {time} on {date}. Bye {name}''
     price_message =
   ''Hi Ana (628123), it is 23.30 on 1/1/2024. Bye Ana'' \<and>
   replace_all ''{name}'' ''$& costs $$5'' ''Dear {name}!'' = ''Dear {name} costs $5!'' \<and>
   replace_all ''{name}'' [CHR ''$'', CHR 0x27, CHR ''$'', CHR 0x60, CHR ''$'', CHR ''1'']
     ''a{name}b'' = ''aba$1b''"
  by (simp add: processReplyTemplate_def replace_all_def replace_first_def senderNumber_of_def
        startsWith_def Let_def price_message_def at_2330_def)

lemma processMessage_matched:
  assumes "\<not> fromMe (msg_key message)"
    and "remoteJid (msg_key message) \<noteq> ''status@broadcast''"
    and "extractMessageText message = Some messageText"
    and "messageText \<noteq> []"
    and "first_match RegExp js now messageText (remoteJid (msg_key message))
           (endsWith (remoteJid (msg_key message)) ''@g.us'')
           (applicableRules rules sessionId) = Inr (Some rule)"
  shows "fst (processMessage RegExp js now rules sessionId message) =
           Inr (Some \<lparr>reply_ruleId = rule_id rule,
                       reply_ruleName = rule_name rule,
                       reply_chatId = remoteJid (msg_key message),
                       reply_message =
                         processReplyTemplate now (action_message (rule_action rule)) message,
                       reply_delay =
                         (if action_delay (rule_action rule) = 0 then 1000
                          else action_delay (rule_action rule)),
                       reply_action = rule_action rule\<rparr>)"
  using assms by (simp add: processMessage_def Let_def)

definition one_unscoped_rule :: rules where
  "one_unscoped_rule = [(''r0'', price_rule ''r0'' [] 0)]"

theorem processMessage_session_counterexample:
  "enabled (price_rule ''r0'' [] 0) \<and>
   rule_sessionId (price_rule ''r0'' [] 0) \<noteq> ''*'' \<and>
   rule_sessionId (price_rule ''r0'' [] 0) \<noteq> ''s1'' \<and>
   fst (processMessage literal_regexp decimal_engine at_2330 one_unscoped_rule ''s1'' price_message) =
     Inr (Some \<lparr>reply_ruleId = ''r0'', reply_ruleName = ''price list'',
                 reply_chatId = ''628123@s.whatsapp.net'',
                 reply_message = ''Our prices: r0'', reply_delay = 1000,
                 reply_action = \<lparr>action_type = ''reply'', action_message = ''Our prices: r0'',
                    action_delay = 1000\<rparr>\<rparr>)"
proof -
  have a: "\<not> fromMe (msg_key price_message)" by (simp add: price_message_def)
  have b: "remoteJid (msg_key price_message) \<noteq> ''status@broadcast''"
    by (simp add: price_message_def)
  have c: "''what is the price?'' \<noteq> []" by simp
  have j: "remoteJid (msg_key price_message) = ''628123@s.whatsapp.net''"
    by (simp add: price_message_def)
  have ap: "applicableRules one_unscoped_rule ''s1'' = [price_rule ''r0'' [] 0]"
    by (simp add: applicableRules_def one_unscoped_rule_def js_sort_def price_rule_def)
  have m: "first_match literal_regexp decimal_engine at_2330 ''what is the price?''
             (remoteJid (msg_key price_message))
             (endsWith (remoteJid (msg_key price_message)) ''@g.us'')
             (applicableRules one_unscoped_rule ''s1'') = Inr (Some (price_rule ''r0'' [] 0))"
    unfolding j ap not_group by (simp add: price_rule_matches)
  have t: "processReplyTemplate at_2330 ''Our prices: r0'' price_message = ''Our prices: r0''"
    by (simp add: processReplyTemplate_def replace_all_def startsWith_def Let_def
          price_message_def)
  have flds: "rule_id (price_rule ''r0'' [] 0) = ''r0''"
    "rule_name (price_rule ''r0'' [] 0) = ''price list''"
    "rule_action (price_rule ''r0'' [] 0) =
       \<lparr>action_type = ''reply'', action_message = ''Our prices: r0'', action_delay = 1000\<rparr>"
    "enabled (price_rule ''r0'' [] 0)"
    "rule_sessionId (price_rule ''r0'' [] 0) = []"
    by (simp_all add: price_rule_def)
  have "fst (processMessage literal_regexp decimal_engine at_2330 one_unscoped_rule ''s1'' price_message) =
     Inr (Some \<lparr>reply_ruleId = ''r0'', reply_ruleName = ''price list'',
                 reply_chatId = ''628123@s.whatsapp.net'',
                 reply_message = ''Our prices: r0'', reply_delay = 1000,
                 reply_action = \<lparr>action_type = ''reply'', action_message = ''Our prices: r0'',
                    action_delay = 1000\<rparr>\<rparr>)"
    unfolding processMessage_matched [OF a b price_message_text c m] flds j
    by (simp add: t)
  then show ?thesis using flds by simp
qed

section \<open>Verification of the broadcast service\<close>

declare queue_loop.simps [simp del]

subsection \<open>Example data\<close>

text \<open>A manager with one connected session \<open>main\<close>, and the options of a text
  campaign on that session for given recipients.\<close>

definition connected_manager :: manager where
  "connected_manager sid =
     (if sid = ''main'' then Some \<lparr>connectionStatus = ''connected''\<rparr> else None)"

definition campaign_options :: "string list \<Rightarrow> create_options" where
  "campaign_options rs = \<lparr>opt_name = Some ''promo'', opt_sessionId = Some ''main'',
     opt_recipients = Array rs, opt_message = Some ''Hello'', opt_mediaUrl = None,
     opt_mediaType = None, opt_caption = None, opt_scheduledAt = None\<rparr>"

text \<open>The definitions that evaluate a concrete run.\<close>

lemmas eval_defs = create_def campaign_options_def new_service_def truthy_def
    toISOString_of_def Let_def saveBroadcasts_def broadcasts_set_def assign_def start_def
    connected_manager_def processQueue_def text_of_def or_null_def broadcasts_get_def
    perform_def send_call_def after_send_def after_delay_def settle_def awaits_send_def
    queue_end_def pause_def cancel_def default_config_def getRandomDelay_def at_2330_def
    queue_loop.simps

subsection \<open>\<open>create\<close>\<close>

definition pending_recipient :: "string \<Rightarrow> recipient" where
  "pending_recipient r = \<lparr>recipient_chatId = r, recipient_status = Pending, sentAt = None,
     recipient_error = None\<rparr>"

lemma broadcasts_get_set:
  "broadcasts_get (saveBroadcasts (broadcasts_set bid ref (assign ref b s))) bid = Some b"
  by (simp add: broadcasts_get_def saveBroadcasts_def broadcasts_set_def assign_def
        update_conv')

text \<open>
  Claim C10. When \<open>recipients\<close> is not a non-empty array, \<open>create\<close> returns a
  failure and leaves the service as it was (no record, nothing saved). When it
  succeeds, \<open>recipients\<close> was a non-empty array; the campaign holds one recipient per
  element, in the order of the array, each pending with no \<open>sentAt\<close> and no error;
  its status is \<open>created\<close>, its cursor 0, its counts \<open>total = pending = n\<close> and
  \<open>sent = failed = 0\<close>; and the map holds it under its id.
\<close>

theorem create_validates_and_initialises:
  "((\<forall>rs. opt_recipients options = Array rs \<longrightarrow> rs = []) \<longrightarrow>
      (\<exists>msg. create s bid now options = Inr (Failure msg, s))) \<and>
   (\<forall>msg b s'. create s bid now options = Inr (Success msg b, s') \<longrightarrow>
      (\<exists>rs. opt_recipients options = Array rs \<and> rs \<noteq> [] \<and>
            recipients b = map pending_recipient rs \<and>
            status b = Created \<and> currentIndex b = 0 \<and>
            stats b = \<lparr>stats_total = int (length rs), stats_sent = 0, stats_failed = 0,
                        stats_pending = int (length rs)\<rparr> \<and>
            broadcasts_get s' bid = Some b))"
proof (intro conjI allI impI)
  assume "\<forall>rs. opt_recipients options = Array rs \<longrightarrow> rs = []"
  then show "\<exists>msg. create s bid now options = Inr (Failure msg, s)"
    by (cases "opt_recipients options") (auto simp: create_def)
next
  fix msg b s'
  assume ok: "create s bid now options = Inr (Success msg b, s')"
  then obtain rs where rs: "opt_recipients options = Array rs"
    by (cases "opt_recipients options") (auto simp: create_def split: if_splits)
  with ok have ne: "rs \<noteq> []"
    by (auto simp: create_def split: if_splits)
  from ok rs ne obtain scheduled where
    sch: "toISOString_of (opt_scheduledAt options) = Inr scheduled"
    by (cases "toISOString_of (opt_scheduledAt options)")
       (auto simp: create_def split: if_splits)
  from ok rs ne sch have
    b: "recipients b = map pending_recipient rs" "status b = Created" "currentIndex b = 0"
       "stats b = \<lparr>stats_total = int (length rs), stats_sent = 0, stats_failed = 0,
                    stats_pending = int (length rs)\<rparr>"
    and s': "s' = saveBroadcasts (broadcasts_set bid (next_ref s)
                    (assign (next_ref s) b (s\<lparr>next_ref := Suc (next_ref s)\<rparr>)))"
    by (auto simp: create_def Let_def pending_recipient_def split: if_splits)
  have "broadcasts_get s' bid = Some b"
    unfolding s' by (rule broadcasts_get_set)
  with rs ne b show "\<exists>rs. opt_recipients options = Array rs \<and> rs \<noteq> [] \<and>
            recipients b = map pending_recipient rs \<and>
            status b = Created \<and> currentIndex b = 0 \<and>
            stats b = \<lparr>stats_total = int (length rs), stats_sent = 0, stats_failed = 0,
                        stats_pending = int (length rs)\<rparr> \<and>
            broadcasts_get s' bid = Some b"
    by blast
qed

theorem create_validates_and_initialises_witness:
  "create new_service ''b1'' at_2330 (campaign_options []) =
     Inr (Failure ''Recipients must be a non-empty array'', new_service) \<and>
   (case create new_service ''b1'' at_2330 (campaign_options [''111'', ''222'']) of
      Inl e \<Rightarrow> False
    | Inr (r, s') \<Rightarrow>
        (case r of
           Failure msg \<Rightarrow> False
         | Success msg b \<Rightarrow>
             recipients b = [pending_recipient ''111'', pending_recipient ''222''] \<and>
             status b = Created \<and> currentIndex b = 0 \<and>
             stats b = \<lparr>stats_total = 2, stats_sent = 0, stats_failed = 0, stats_pending = 2\<rparr> \<and>
             broadcasts_get s' ''b1'' = Some b))"
proof -
  have a: "create new_service ''b1'' at_2330 (campaign_options []) =
     Inr (Failure ''Recipients must be a non-empty array'', new_service)"
    by (simp add: create_def campaign_options_def truthy_def)
  obtain b s' where c: "create new_service ''b1'' at_2330 (campaign_options [''111'', ''222'']) =
       Inr (Success ''Broadcast created'' b, s')"
    by (simp add: create_def campaign_options_def truthy_def toISOString_of_def Let_def)
  from create_validates_and_initialises
         [of "campaign_options [''111'', ''222'']" new_service "''b1''" at_2330] c
  obtain rs where "opt_recipients (campaign_options [''111'', ''222'']) = Array rs"
    "recipients b = map pending_recipient rs" "status b = Created" "currentIndex b = 0"
    "stats b = \<lparr>stats_total = int (length rs), stats_sent = 0, stats_failed = 0,
                 stats_pending = int (length rs)\<rparr>"
    "broadcasts_get s' ''b1'' = Some b"
    by blast
  then have "recipients b = [pending_recipient ''111'', pending_recipient ''222''] \<and>
             status b = Created \<and> currentIndex b = 0 \<and>
             stats b = \<lparr>stats_total = 2, stats_sent = 0, stats_failed = 0, stats_pending = 2\<rparr> \<and>
             broadcasts_get s' ''b1'' = Some b"
    by (auto simp: campaign_options_def)
  with a c show ?thesis by simp
qed

subsection \<open>The invariant of the counts\<close>

text \<open>
  The counts of a campaign add up, and the pending count is the number of recipients
  after the cursor. What makes this hold in every state: the recipients from the cursor
  on are all pending, so the loop never has one to skip; an invocation that awaits a
  send has read a recipient at or before the cursor; and references are allocated.
\<close>

definition stats_consistent :: "broadcast \<Rightarrow> bool" where
  "stats_consistent b \<longleftrightarrow>
     stats_sent (stats b) + stats_failed (stats b) + stats_pending (stats b) = stats_total (stats b) \<and>
     stats_pending (stats b) = stats_total (stats b) - int (currentIndex b)"

definition rest_pending :: "broadcast \<Rightarrow> bool" where
  "rest_pending b \<longleftrightarrow>
     list_all (\<lambda>r. recipient_status r = Pending) (drop (currentIndex b) (recipients b))"

definition task_ok :: "service \<Rightarrow> task \<Rightarrow> bool" where
  "task_ok s t \<longleftrightarrow>
     task_broadcast t < next_ref s \<and>
     (case suspended t of
        AwaitSend i \<Rightarrow> i \<le> currentIndex (heap s (task_broadcast t))
      | _ \<Rightarrow> True)"

definition refs_ok :: "service \<Rightarrow> bool" where
  "refs_ok s \<longleftrightarrow> (\<forall>bid ref. map_of (broadcasts s) bid = Some ref \<longrightarrow> ref < next_ref s)"

definition service_inv :: "service \<Rightarrow> bool" where
  "service_inv s \<longleftrightarrow>
     (\<forall>ref. stats_consistent (heap s ref) \<and> rest_pending (heap s ref)) \<and>
     refs_ok s \<and>
     list_all (task_ok s) (tasks s) \<and>
     list_all (\<lambda>b. stats_consistent b \<and> rest_pending b) (dataFile s)"

lemma rest_pending_nth:
  "rest_pending b \<Longrightarrow> currentIndex b \<le> i \<Longrightarrow> i < length (recipients b) \<Longrightarrow>
   recipient_status (recipients b ! i) = Pending"
proof -
  assume rp: "rest_pending b" and le: "currentIndex b \<le> i" and lt: "i < length (recipients b)"
  have "recipients b ! i = drop (currentIndex b) (recipients b) ! (i - currentIndex b)"
    using le lt by simp
  moreover have "i - currentIndex b < length (drop (currentIndex b) (recipients b))"
    using le lt by simp
  ultimately show ?thesis
    using rp unfolding rest_pending_def list_all_length by metis
qed

lemma inv_initial: "service_inv new_service"
  by (simp add: service_inv_def new_service_def blank_def stats_consistent_def rest_pending_def
        refs_ok_def)

lemma inv_assign:
  assumes "service_inv s" and "stats_consistent b" and "rest_pending b"
    and "currentIndex (heap s ref) \<le> currentIndex b"
  shows "service_inv (assign ref b s)"
proof -
  have "task_ok (assign ref b s) t" if "task_ok s t" for t
    using that assms(4)
    by (auto simp: task_ok_def assign_def split: suspension.splits)
  then have "list_all (task_ok (assign ref b s)) (tasks s)"
    using assms(1) by (auto simp: service_inv_def list_all_iff)
  then show ?thesis
    using assms by (auto simp: service_inv_def assign_def refs_ok_def)
qed

lemma task_ok_eq:
  "task_ok (s\<lparr>broadcasts := m\<rparr>) = task_ok s"
  "task_ok (s\<lparr>whatsappManager := g\<rparr>) = task_ok s"
  "task_ok (s\<lparr>activeQueues := a\<rparr>) = task_ok s"
  "task_ok (s\<lparr>tasks := ts\<rparr>) = task_ok s"
  "task_ok (s\<lparr>dataFile := f\<rparr>) = task_ok s"
  "task_ok (s\<lparr>trace := tr\<rparr>) = task_ok s"
  by (rule ext, simp add: task_ok_def cong: suspension.case_cong)+

lemma inv_set:
  "service_inv s \<Longrightarrow> ref < next_ref s \<Longrightarrow> service_inv (broadcasts_set bid ref s)"
  by (simp add: service_inv_def broadcasts_set_def task_ok_eq refs_ok_def update_conv')

lemma inv_save: "service_inv s \<Longrightarrow> service_inv (saveBroadcasts s)"
  by (auto simp: service_inv_def saveBroadcasts_def task_ok_eq list_all_iff refs_ok_def)

lemma inv_perform: "service_inv s \<Longrightarrow> service_inv (perform e s)"
  by (simp add: service_inv_def perform_def task_ok_eq refs_ok_def)

lemma inv_activeQueues: "service_inv s \<Longrightarrow> service_inv (s\<lparr>activeQueues := a\<rparr>)"
  by (simp add: service_inv_def task_ok_eq refs_ok_def)

lemma inv_broadcasts_delete:
  "service_inv s \<Longrightarrow> service_inv (s\<lparr>broadcasts := AList.delete bid (broadcasts s)\<rparr>)"
  by (simp add: service_inv_def task_ok_eq refs_ok_def delete_conv')

lemma inv_manager: "service_inv s \<Longrightarrow> service_inv (s\<lparr>whatsappManager := m\<rparr>)"
  by (simp add: service_inv_def task_ok_eq refs_ok_def)

lemma inv_tasks:
  "service_inv s \<Longrightarrow> list_all (task_ok s) ts \<Longrightarrow> service_inv (s\<lparr>tasks := ts\<rparr>)"
  by (simp add: service_inv_def task_ok_eq refs_ok_def)

lemma inv_heap: "service_inv s \<Longrightarrow> stats_consistent (heap s ref) \<and> rest_pending (heap s ref)"
  by (simp add: service_inv_def)

lemma inv_ref: "service_inv s \<Longrightarrow> map_of (broadcasts s) bid = Some ref \<Longrightarrow> ref < next_ref s"
  by (auto simp: service_inv_def refs_ok_def)

lemma inv_task: "service_inv s \<Longrightarrow> k < length (tasks s) \<Longrightarrow> task_ok s (tasks s ! k)"
  by (simp add: service_inv_def list_all_length)

lemma status_update_ok:
  "stats_consistent b \<Longrightarrow> stats_consistent (b\<lparr>status := st\<rparr>)"
  "rest_pending b \<Longrightarrow> rest_pending (b\<lparr>status := st\<rparr>)"
  "stats_consistent b \<Longrightarrow> stats_consistent (b\<lparr>status := st, startedAt := x\<rparr>)"
  "rest_pending b \<Longrightarrow> rest_pending (b\<lparr>status := st, startedAt := x\<rparr>)"
  "stats_consistent b \<Longrightarrow> stats_consistent (b\<lparr>status := st, completedAt := x\<rparr>)"
  "rest_pending b \<Longrightarrow> rest_pending (b\<lparr>status := st, completedAt := x\<rparr>)"
  by (simp_all add: stats_consistent_def rest_pending_def)

lemma queue_loop_when_rest_pending:
  assumes "rest_pending (heap s ref)"
  shows "queue_loop s bid ref =
     (let broadcast = heap s ref in
      if currentIndex broadcast < length (recipients broadcast) then
        (case broadcasts_get s bid of
           None \<Rightarrow> (s, Returned)
         | Some currentBroadcast \<Rightarrow>
             if status currentBroadcast \<noteq> Running then (s, Returned)
             else (perform (send_call broadcast (recipients broadcast ! currentIndex broadcast)) s,
                   AwaitSend (currentIndex broadcast)))
      else (s, Returned))"
proof (cases "currentIndex (heap s ref) < length (recipients (heap s ref))")
  case True
  then have "recipient_status (recipients (heap s ref) ! currentIndex (heap s ref)) = Pending"
    using rest_pending_nth [OF assms] by simp
  then show ?thesis
    by (subst queue_loop.simps) (simp add: Let_def split: option.splits)
next
  case False
  then show ?thesis by (subst queue_loop.simps) (simp add: Let_def)
qed

lemma inv_queue_loop:
  assumes "service_inv s" and "queue_loop s bid ref = (s', w)"
  shows "service_inv s' \<and> tasks s' = tasks s \<and> next_ref s' = next_ref s \<and>
         (case w of AwaitSend i \<Rightarrow> i \<le> currentIndex (heap s' ref) | _ \<Rightarrow> True)"
proof -
  have rp: "rest_pending (heap s ref)" using assms(1) inv_heap by blast
  let ?sent = "perform (send_call (heap s ref)
                  (recipients (heap s ref) ! currentIndex (heap s ref))) s"
  have "(s', w) = (s, Returned) \<or> (s', w) = (?sent, AwaitSend (currentIndex (heap s ref)))"
    using assms(2) unfolding queue_loop_when_rest_pending [OF rp]
    by (auto simp: Let_def split: if_splits option.splits)
  then show ?thesis
  proof
    assume "(s', w) = (s, Returned)"
    then show ?thesis using assms(1) by simp
  next
    assume "(s', w) = (?sent, AwaitSend (currentIndex (heap s ref)))"
    then show ?thesis using inv_perform [OF assms(1)] by (simp add: perform_def)
  qed
qed

lemma next_ref_assign [simp]: "next_ref (assign ref b s) = next_ref s"
  by (simp add: assign_def)

lemma inv_queue_end:
  assumes "service_inv s" and "ref < next_ref s"
  shows "service_inv (queue_end s bid ref now)"
proof -
  have h: "stats_consistent (heap s ref)" "rest_pending (heap s ref)"
    using assms inv_heap by blast+
  show ?thesis
    unfolding queue_end_def Let_def
    by (auto intro!: inv_activeQueues inv_save inv_set inv_assign assms status_update_ok h)
qed

lemma next_ref_queue_end [simp]: "next_ref (queue_end s bid ref now) = next_ref s"
  by (simp add: queue_end_def Let_def saveBroadcasts_def broadcasts_set_def assign_def)

lemma tasks_queue_end [simp]: "tasks (queue_end s bid ref now) = tasks s"
  by (simp add: queue_end_def Let_def saveBroadcasts_def broadcasts_set_def assign_def)

lemma list_all_update: "list_all P xs \<Longrightarrow> P x \<Longrightarrow> list_all P (xs[k := x])"
  using set_update_subset_insert [of xs k x] by (auto simp: list_all_iff)

lemma inv_alloc:
  assumes "service_inv s" and "stats_consistent b" and "rest_pending b"
  shows "service_inv (assign (next_ref s) b (s\<lparr>next_ref := Suc (next_ref s)\<rparr>))"
proof -
  have "task_ok (assign (next_ref s) b (s\<lparr>next_ref := Suc (next_ref s)\<rparr>)) t"
    if "task_ok s t" for t
    using that by (auto simp: task_ok_def assign_def split: suspension.splits)
  then have "list_all (task_ok (assign (next_ref s) b (s\<lparr>next_ref := Suc (next_ref s)\<rparr>)))
               (tasks s)"
    using assms(1) by (auto simp: service_inv_def list_all_iff)
  then show ?thesis
    using assms by (auto simp: service_inv_def assign_def refs_ok_def less_Suc_eq)
qed

lemma created_ok:
  "stats_consistent \<lparr>b_id = a, b_name = b, b_sessionId = c, b_message = d, mediaUrl = e,
      mediaType = f, caption = g, scheduledAt = h,
      recipients = map (\<lambda>r. \<lparr>recipient_chatId = r, recipient_status = Pending,
                                sentAt = None, recipient_error = None\<rparr>) rs,
      status = Created,
      stats = \<lparr>stats_total = int (length rs), stats_sent = 0, stats_failed = 0,
                stats_pending = int (length rs)\<rparr>,
      createdAt = i, startedAt = None, completedAt = None, currentIndex = 0\<rparr>"
  "rest_pending \<lparr>b_id = a, b_name = b, b_sessionId = c, b_message = d, mediaUrl = e,
      mediaType = f, caption = g, scheduledAt = h,
      recipients = map (\<lambda>r. \<lparr>recipient_chatId = r, recipient_status = Pending,
                                sentAt = None, recipient_error = None\<rparr>) rs,
      status = Created,
      stats = \<lparr>stats_total = int (length rs), stats_sent = 0, stats_failed = 0,
                stats_pending = int (length rs)\<rparr>,
      createdAt = i, startedAt = None, completedAt = None, currentIndex = 0\<rparr>"
  by (simp_all add: stats_consistent_def rest_pending_def list_all_iff)

lemma inv_create:
  assumes "service_inv s" and "create s bid now options = Inr (r, s')"
  shows "service_inv s'"
proof (cases "s' = s")
  case True
  then show ?thesis using assms(1) by simp
next
  case False
  with assms(2) obtain b where
    "s' = saveBroadcasts (broadcasts_set bid (next_ref s)
             (assign (next_ref s) b (s\<lparr>next_ref := Suc (next_ref s)\<rparr>)))"
    "stats_consistent b" "rest_pending b"
    by (auto simp: create_def Let_def created_ok
             split: if_splits recipients_arg.splits sum.splits)
  moreover have "service_inv (assign (next_ref s) b (s\<lparr>next_ref := Suc (next_ref s)\<rparr>))"
    if "stats_consistent b" "rest_pending b" for b
    using assms(1) that by (rule inv_alloc)
  ultimately show ?thesis
    by (auto intro!: inv_save inv_set)
qed

lemma inv_status:
  assumes "service_inv s" and "ref < next_ref s"
  shows "service_inv (saveBroadcasts (broadcasts_set bid ref
           (assign ref (heap s ref\<lparr>status := st\<rparr>) s)))"
  using assms inv_heap [OF assms(1), of ref]
  by (auto intro!: inv_save inv_set inv_assign status_update_ok)

lemma inv_pause: "service_inv s \<Longrightarrow> service_inv (snd (pause s bid))"
  by (auto simp: pause_def Let_def inv_status inv_ref split: option.splits)

lemma inv_cancel: "service_inv s \<Longrightarrow> service_inv (snd (cancel s bid))"
  by (auto simp: cancel_def Let_def inv_status inv_ref split: option.splits)

lemma inv_delete: "service_inv s \<Longrightarrow> service_inv (snd (delete s bid))"
  by (auto simp: delete_def Let_def split: option.splits intro!: inv_save inv_broadcasts_delete)

lemma inv_processQueue:
  assumes "service_inv s"
  shows "service_inv (processQueue s bid now)"
proof (cases "map_of (broadcasts s) bid")
  case None
  then show ?thesis using assms(1) by (simp add: processQueue_def)
next
  case (Some ref')
  have r: "ref' < next_ref s" using assms Some by (rule inv_ref)
  let ?s1 = "s\<lparr>activeQueues := insert bid (activeQueues s)\<rparr>"
  have i1: "service_inv ?s1" using assms(1) by (rule inv_activeQueues)
  show ?thesis
  proof (cases "queue_loop ?s1 bid ref'")
    case (Pair s2 w)
    from inv_queue_loop [OF i1 Pair]
    have q: "service_inv s2" "tasks s2 = tasks ?s1" "next_ref s2 = next_ref ?s1"
      "case w of AwaitSend i \<Rightarrow> i \<le> currentIndex (heap s2 ref') | _ \<Rightarrow> True"
      by auto
    have e: "service_inv (queue_end s2 bid ref' now)"
      using q(1,3) r by (auto intro: inv_queue_end)
    have "task_ok s2 \<lparr>task_id = bid, task_broadcast = ref', messagesInBatch = 0, suspended = w\<rparr>"
      using q(3,4) r by (simp add: task_ok_def split: suspension.splits)
    then have "list_all (task_ok s2)
       (tasks s2 @ [\<lparr>task_id = bid, task_broadcast = ref', messagesInBatch = 0, suspended = w\<rparr>])"
      using q(1) by (simp add: service_inv_def)
    then have a: "service_inv (s2\<lparr>tasks := tasks s2 @
        [\<lparr>task_id = bid, task_broadcast = ref', messagesInBatch = 0, suspended = w\<rparr>]\<rparr>)"
      using q(1) by (rule inv_tasks [rotated])
    have p: "service_inv ((saveBroadcasts (broadcasts_set bid ref'
               (assign ref' (heap ?s1 ref'\<lparr>status := Paused\<rparr>) ?s1)))\<lparr>activeQueues := x\<rparr>)" for x
      using r by (intro inv_activeQueues inv_status i1) simp
    show ?thesis
      using Some Pair assms(1) i1 e a p
      by (auto simp: processQueue_def Let_def split: option.splits)
  qed
qed

lemma next_ref_simps [simp]:
  "next_ref (saveBroadcasts s) = next_ref s"
  "next_ref (broadcasts_set bid ref s) = next_ref s"
  "next_ref (perform e s) = next_ref s"
  by (simp_all add: saveBroadcasts_def broadcasts_set_def perform_def)

lemma tasks_simps [simp]:
  "tasks (saveBroadcasts s) = tasks s"
  "tasks (broadcasts_set bid ref s) = tasks s"
  "tasks (perform e s) = tasks s"
  "tasks (assign ref b s) = tasks s"
  by (simp_all add: saveBroadcasts_def broadcasts_set_def perform_def assign_def)

lemma map_of_simps [simp]:
  "map_of (broadcasts (saveBroadcasts s)) = map_of (broadcasts s)"
  "map_of (broadcasts (broadcasts_set bid ref s)) = (map_of (broadcasts s))(bid \<mapsto> ref)"
  "map_of (broadcasts (perform e s)) = map_of (broadcasts s)"
  "map_of (broadcasts (assign ref b s)) = map_of (broadcasts s)"
  by (simp_all add: saveBroadcasts_def broadcasts_set_def perform_def assign_def update_conv')

lemma inv_start:
  assumes "service_inv s"
  shows "service_inv (snd (start s bid now))"
proof (cases "map_of (broadcasts s) bid")
  case None
  then show ?thesis using assms by (simp add: start_def)
next
  case (Some ref)
  have r: "ref < next_ref s" using assms Some by (rule inv_ref)
  have h: "stats_consistent (heap s ref)" "rest_pending (heap s ref)"
    using assms inv_heap by blast+
  have "service_inv (processQueue (saveBroadcasts (broadcasts_set bid ref
          (assign ref b' s))) bid now)"
    if "stats_consistent b'" "rest_pending b'" "currentIndex (heap s ref) \<le> currentIndex b'" for b'
    using r that by (auto intro!: inv_processQueue inv_save inv_set inv_assign assms)
  then show ?thesis
    using Some assms h
    by (auto simp: start_def Let_def stats_consistent_def rest_pending_def split: option.splits)
qed

lemma settle_fields [simp]:
  "currentIndex (settle outcome now i b) = currentIndex b"
  "length (recipients (settle outcome now i b)) = length (recipients b)"
  "status (settle outcome now i b) = status b"
  by (simp_all add: settle_def Let_def split: send_outcome.splits)

lemma settle_recipients:
  "\<exists>r. recipients (settle outcome now i b) = (recipients b)[i := r]"
  by (auto simp: settle_def Let_def split: send_outcome.splits)

lemma settle_stats:
  "stats_sent (stats (settle outcome now i b)) + stats_failed (stats (settle outcome now i b))
     = stats_sent (stats b) + stats_failed (stats b) + 1 \<and>
   stats_pending (stats (settle outcome now i b)) = stats_pending (stats b) - 1 \<and>
   stats_total (stats (settle outcome now i b)) = stats_total (stats b)"
  by (auto simp: settle_def Let_def split: send_outcome.splits)

lemma rest_pending_advance:
  assumes "rest_pending b" and "i \<le> currentIndex b"
  shows "rest_pending ((settle outcome now i b)\<lparr>currentIndex := Suc (currentIndex b)\<rparr>)"
proof -
  obtain r where r: "recipients (settle outcome now i b) = (recipients b)[i := r]"
    using settle_recipients by blast
  have "drop (Suc (currentIndex b)) ((recipients b)[i := r]) = drop (Suc (currentIndex b)) (recipients b)"
    using assms(2) by (intro drop_update_cancel) simp
  then have "drop (Suc (currentIndex b)) ((recipients b)[i := r]) = tl (drop (currentIndex b) (recipients b))"
    by (simp add: drop_Suc drop_tl)
  moreover have "list_all P (tl xs)" if "list_all P xs" for P and xs :: "recipient list"
    using that by (cases xs) auto
  ultimately show ?thesis
    using assms(1) r by (simp add: rest_pending_def)
qed

lemma stats_consistent_advance:
  assumes "stats_consistent b"
  shows "stats_consistent ((settle outcome now i b)\<lparr>currentIndex := Suc (currentIndex b)\<rparr>)"
  using assms settle_stats [of outcome now i b] by (simp add: stats_consistent_def)

lemma inv_after_send:
  assumes "service_inv s" and "k < length (tasks s)"
  shows "service_inv (after_send s k outcome u now)"
proof (cases "suspended (tasks s ! k)")
  case (AwaitSend i)
  let ?t = "tasks s ! k"
  let ?ref = "task_broadcast ?t"
  let ?b = "heap s ?ref"
  have tk: "task_ok s ?t" using assms by (rule inv_task)
  then have r: "?ref < next_ref s" and i: "i \<le> currentIndex ?b"
    using AwaitSend by (simp_all add: task_ok_def)
  have h: "stats_consistent ?b" "rest_pending ?b"
    using assms(1) inv_heap by blast+
  have step: "service_inv (saveBroadcasts (broadcasts_set (task_id ?t) ?ref (assign ?ref b' s)))"
    if "stats_consistent b'" "rest_pending b'" "currentIndex ?b \<le> currentIndex b'" for b'
    using that r by (auto intro!: inv_save inv_set inv_assign assms(1))
  have fin: "service_inv (s1\<lparr>tasks := (tasks s1)[k := t']\<rparr>)"
    if "service_inv s1" "task_ok s1 t'" for s1 t'
  proof -
    have "list_all (task_ok s1) ((tasks s1)[k := t'])"
      using that by (auto intro: list_all_update simp: service_inv_def)
    with that(1) show ?thesis by (rule inv_tasks)
  qed
  have tok: "task_ok (perform e (saveBroadcasts (broadcasts_set bid ?ref (assign ?ref b' s))))
               (?t\<lparr>messagesInBatch := n, suspended := AwaitTimer\<rparr>)" for e bid b' n
    using r by (simp add: task_ok_def)
  let ?b' = "(settle outcome now i ?b)\<lparr>currentIndex := Suc (currentIndex ?b)\<rparr>"
  have s1: "service_inv (saveBroadcasts (broadcasts_set (task_id ?t) ?ref (assign ?ref ?b' s)))"
    by (rule step) (simp_all add: stats_consistent_advance rest_pending_advance h i)
  have "service_inv ((perform e (saveBroadcasts (broadcasts_set (task_id ?t) ?ref (assign ?ref ?b' s))))
          \<lparr>tasks := (tasks (perform e (saveBroadcasts (broadcasts_set (task_id ?t) ?ref (assign ?ref ?b' s)))))
                       [k := ?t\<lparr>messagesInBatch := n, suspended := AwaitTimer\<rparr>]\<rparr>)" for e n
    by (rule fin) (auto intro: inv_perform s1 tok)
  then show ?thesis
    using AwaitSend by (simp add: after_send_def Let_def)
next
  case AwaitTimer
  then show ?thesis using assms(1) by (simp add: after_send_def Let_def)
next
  case Returned
  then show ?thesis using assms(1) by (simp add: after_send_def Let_def)
qed

lemma inv_after_delay:
  assumes "service_inv s" and "k < length (tasks s)"
  shows "service_inv (after_delay s k now)"
proof (cases "suspended (tasks s ! k)")
  case AwaitTimer
  let ?t = "tasks s ! k"
  let ?ref = "task_broadcast ?t"
  have tk: "task_ok s ?t" using assms by (rule inv_task)
  then have r: "?ref < next_ref s" by (simp add: task_ok_def)
  obtain s1 w where q: "queue_loop s (task_id ?t) ?ref = (s1, w)" by fastforce
  from inv_queue_loop [OF assms(1) q]
  have q1: "service_inv s1" "tasks s1 = tasks s" "next_ref s1 = next_ref s"
    "case w of AwaitSend i \<Rightarrow> i \<le> currentIndex (heap s1 ?ref) | _ \<Rightarrow> True"
    by auto
  have e: "service_inv (queue_end s1 (task_id ?t) ?ref now)"
    using q1(1,3) r by (auto intro: inv_queue_end)
  have fin: "service_inv (s2\<lparr>tasks := (tasks s1)[k := t']\<rparr>)"
    if "service_inv s2" "task_ok s2 t'" "tasks s2 = tasks s1" for s2 t'
  proof -
    have "list_all (task_ok s2) ((tasks s2)[k := t'])"
      using that by (auto intro: list_all_update simp: service_inv_def)
    with that(1) show ?thesis unfolding that(3) [symmetric] by (rule inv_tasks)
  qed
  have t1: "task_ok (queue_end s1 (task_id ?t) ?ref now) (?t\<lparr>suspended := Returned\<rparr>)"
    using r q1(3) by (simp add: task_ok_def)
  have t2: "task_ok s1 (?t\<lparr>suspended := w\<rparr>)"
    using r q1(3,4) by (simp add: task_ok_def split: suspension.splits)
  show ?thesis
    using AwaitTimer q fin [OF e t1] fin [OF q1(1) t2]
    by (simp add: after_delay_def Let_def)
next
  case (AwaitSend i)
  then show ?thesis using assms(1) by (simp add: after_delay_def Let_def)
next
  case Returned
  then show ?thesis using assms(1) by (simp add: after_delay_def Let_def)
qed

lemma inv_loadBroadcasts:
  assumes "service_inv s" and "list_all (\<lambda>b. stats_consistent b \<and> rest_pending b) records"
  shows "service_inv (loadBroadcasts records s)"
  using assms unfolding loadBroadcasts_def
proof (induction records arbitrary: s)
  case Nil
  then show ?case by simp
next
  case (Cons b records)
  have "service_inv (broadcasts_set (b_id b) (next_ref s)
          (assign (next_ref s) b (s\<lparr>next_ref := Suc (next_ref s)\<rparr>)))"
    using Cons.prems by (intro inv_set inv_alloc) simp_all
  with Cons show ?case by simp
qed

lemma inv_restart:
  assumes "service_inv s"
  shows "service_inv (restart s)"
proof -
  have f: "list_all (\<lambda>b. stats_consistent b \<and> rest_pending b) (dataFile s)"
    using assms by (simp add: service_inv_def)
  then have "service_inv (new_service\<lparr>dataFile := dataFile s, trace := trace s\<rparr>)"
    by (simp add: service_inv_def new_service_def blank_def stats_consistent_def
          rest_pending_def refs_ok_def)
  then show ?thesis unfolding restart_def using f by (rule inv_loadBroadcasts)
qed

lemma inv_fire:
  assumes "service_inv s" and "fire s e = Some s'"
  shows "service_inv s'"
proof (cases e)
  case (Create bid now options)
  then show ?thesis
    using assms inv_create [OF assms(1), of bid now options]
    by (auto split: sum.splits)
next
  case (Start bid now)
  then show ?thesis using assms inv_start by auto
next
  case (Pause bid)
  then show ?thesis using assms inv_pause by auto
next
  case (Cancel bid)
  then show ?thesis using assms inv_cancel by auto
next
  case (Delete bid)
  then show ?thesis using assms inv_delete by auto
next
  case (SendSettled k outcome u now)
  then show ?thesis using assms inv_after_send by (auto split: if_splits)
next
  case (TimerFired k now)
  then show ?thesis using assms inv_after_delay by (auto split: if_splits)
next
  case (SetWhatsAppManager m)
  then show ?thesis using assms inv_manager by auto
next
  case Restart
  then show ?thesis using assms inv_restart by auto
qed

lemma inv_reachable: "reachable s \<Longrightarrow> service_inv s"
  by (induction rule: reachable.induct) (auto intro: inv_initial inv_fire)
subsection \<open>The status of a campaign\<close>

lemma heap_simps [simp]:
  "heap (saveBroadcasts s) = heap s"
  "heap (broadcasts_set bid ref s) = heap s"
  "heap (perform e s) = heap s"
  "heap (assign ref b s) = (heap s)(ref := b)"
  by (simp_all add: saveBroadcasts_def broadcasts_set_def perform_def assign_def)

lemma manager_simps [simp]:
  "whatsappManager (saveBroadcasts s) = whatsappManager s"
  "whatsappManager (broadcasts_set bid ref s) = whatsappManager s"
  "whatsappManager (perform e s) = whatsappManager s"
  "whatsappManager (assign ref b s) = whatsappManager s"
  by (simp_all add: saveBroadcasts_def broadcasts_set_def perform_def assign_def)

lemma queue_loop_status:
  "status (heap (fst (queue_loop s bid r)) ref) = status (heap s ref)"
proof (induction s bid r rule: queue_loop.induct)
  case (1 s bid r)
  show ?case
    by (subst queue_loop.simps) (use 1 in \<open>auto simp: Let_def split: option.splits\<close>)
qed

lemma queue_end_status:
  "status (heap (queue_end s bid r now) ref) = status (heap s ref) \<or>
   (ref = r \<and> status (heap (queue_end s bid r now) ref) = Completed)"
  by (simp add: queue_end_def Let_def)

lemma after_send_status:
  "status (heap (after_send s k outcome u now) ref) = status (heap s ref)"
  by (cases "suspended (tasks s ! k)") (simp_all add: after_send_def Let_def)

lemma after_delay_status:
  "status (heap (after_delay s k now) ref) = status (heap s ref) \<or>
   status (heap (after_delay s k now) ref) = Completed"
proof (cases "suspended (tasks s ! k)")
  case AwaitTimer
  obtain s1 w where q: "queue_loop s (task_id (tasks s ! k)) (task_broadcast (tasks s ! k)) = (s1, w)"
    by fastforce
  have "status (heap s1 ref) = status (heap s ref)"
    using queue_loop_status [of s "task_id (tasks s ! k)" "task_broadcast (tasks s ! k)" ref] q
    by simp
  then show ?thesis
    using AwaitTimer q
      queue_end_status [of s1 "task_id (tasks s ! k)" "task_broadcast (tasks s ! k)" now ref]
    by (auto simp: after_delay_def Let_def)
qed (simp_all add: after_delay_def)

lemma pause_status:
  "status (heap (snd (pause s bid)) ref) = status (heap s ref) \<or>
   (status (heap s ref) = Running \<and> status (heap (snd (pause s bid)) ref) = Paused)"
  by (auto simp: pause_def Let_def split: option.splits)

lemma cancel_status:
  "status (heap (snd (cancel s bid)) ref) = status (heap s ref) \<or>
   (status (heap s ref) \<noteq> Completed \<and> status (heap (snd (cancel s bid)) ref) = Cancelled)"
  by (auto simp: cancel_def Let_def split: option.splits)

lemma delete_status: "heap (snd (delete s bid)) = heap s"
  by (auto simp: delete_def Let_def split: option.splits)

lemma create_status:
  "create s bid now options = Inr (r, s') \<Longrightarrow> ref < next_ref s \<Longrightarrow> heap s' ref = heap s ref"
  by (auto simp: create_def Let_def split: if_splits recipients_arg.splits sum.splits)

lemma processQueue_status:
  "status (heap (processQueue s bid now) ref) = status (heap s ref) \<or>
   (map_of (broadcasts s) bid = Some ref \<and> status (heap s ref) = Running \<and>
    status (heap (processQueue s bid now) ref) \<in> {Paused, Completed})"
proof (cases "map_of (broadcasts s) bid")
  case None
  then show ?thesis by (simp add: processQueue_def)
next
  case (Some r)
  let ?s1 = "s\<lparr>activeQueues := insert bid (activeQueues s)\<rparr>"
  obtain s2 w where q: "queue_loop ?s1 bid r = (s2, w)" by fastforce
  have "status (heap s2 ref) = status (heap s ref)"
    using queue_loop_status [of ?s1 bid r ref] q by simp
  then show ?thesis
    using Some q queue_end_status [of s2 bid r now ref]
    by (auto simp: processQueue_def Let_def split: option.splits)
qed

text \<open>\<open>start\<close> goes through exactly when the campaign is known, is neither running
  nor completed, and its session exists and is connected.\<close>

definition session_connected :: "service \<Rightarrow> string \<Rightarrow> bool" where
  "session_connected s sid \<longleftrightarrow>
     (case whatsappManager s of
        None \<Rightarrow> False
      | Some getSession \<Rightarrow>
          (case getSession sid of
             None \<Rightarrow> False
           | Some session \<Rightarrow> connectionStatus session = ''connected''))"

definition started :: "clock \<Rightarrow> broadcast \<Rightarrow> broadcast" where
  "started now b = b\<lparr>status := Running,
      startedAt := (if truthy (startedAt b) then startedAt b else Some (toISOString now))\<rparr>"

lemma start_rejects:
  assumes "map_of (broadcasts s) bid = Some ref"
    and "status (heap s ref) = Running \<or> status (heap s ref) = Completed \<or>
         \<not> session_connected s (b_sessionId (heap s ref))"
  shows "\<exists>msg. start s bid now = (Failure msg, s)"
  using assms by (auto simp: start_def Let_def session_connected_def split: option.splits)

lemma start_unknown:
  "map_of (broadcasts s) bid = None \<Longrightarrow> start s bid now = (Failure ''Broadcast not found'', s)"
  by (simp add: start_def)

lemma start_accepts:
  assumes "map_of (broadcasts s) bid = Some ref"
    and "status (heap s ref) \<noteq> Running" and "status (heap s ref) \<noteq> Completed"
    and "session_connected s (b_sessionId (heap s ref))"
  shows "start s bid now =
           (Success ''Broadcast started''
              (heap (processQueue (saveBroadcasts (broadcasts_set bid ref
                       (assign ref (started now (heap s ref)) s))) bid now) ref),
            processQueue (saveBroadcasts (broadcasts_set bid ref
                       (assign ref (started now (heap s ref)) s))) bid now)"
  using assms
  by (auto simp: start_def Let_def session_connected_def started_def split: option.splits)

lemma start_status:
  "status (heap (snd (start s bid now)) ref) = status (heap s ref) \<or>
   (map_of (broadcasts s) bid = Some ref \<and> status (heap s ref) \<notin> {Running, Completed} \<and>
    status (heap (snd (start s bid now)) ref) \<in> {Running, Paused, Completed})"
proof (cases "map_of (broadcasts s) bid")
  case None
  then show ?thesis by (simp add: start_unknown)
next
  case (Some r)
  show ?thesis
  proof (cases "status (heap s r) = Running \<or> status (heap s r) = Completed \<or>
                \<not> session_connected s (b_sessionId (heap s r))")
    case True
    with start_rejects [OF Some, of now] show ?thesis by auto
  next
    case False
    let ?s1 = "saveBroadcasts (broadcasts_set bid r (assign r (started now (heap s r)) s))"
    have st: "snd (start s bid now) = processQueue ?s1 bid now"
      using start_accepts [OF Some, of now] False by simp
    have s1: "status (heap ?s1 ref) = (if ref = r then Running else status (heap s ref))"
      by (simp add: started_def)
    show ?thesis
      using processQueue_status [of ?s1 bid now ref] False Some
      unfolding st s1 by (auto split: if_splits)
  qed
qed

subsection \<open>Reachable states\<close>

lemma reachable_play: "reachable s \<Longrightarrow> reachable (play s es)"
proof (induction es arbitrary: s)
  case Nil
  then show ?case by simp
next
  case (Cons e es)
  show ?case
  proof (cases "fire s e")
    case None
    with Cons show ?thesis by simp
  next
    case (Some s')
    with Cons.prems have "reachable s'" by (rule reachable.step)
    with Cons.IH Some show ?thesis by simp
  qed
qed

lemma reachable_campaign_counts:
  assumes "reachable s"
    and "broadcasts_get s bid = Some b \<or> b \<in> set (dataFile s) \<or>
         (\<exists>t \<in> set (tasks s). b = heap s (task_broadcast t))"
  shows "stats_consistent b"
proof -
  have i: "service_inv s" using assms(1) by (rule inv_reachable)
  from assms(2) consider "broadcasts_get s bid = Some b" | "b \<in> set (dataFile s)"
    | "\<exists>t \<in> set (tasks s). b = heap s (task_broadcast t)" by blast
  then show ?thesis
  proof cases
    case 1
    then obtain ref where "b = heap s ref" by (auto simp: broadcasts_get_def)
    then show ?thesis using i inv_heap by blast
  next
    case 2
    then show ?thesis using i by (auto simp: service_inv_def list_all_iff)
  next
    case 3
    then show ?thesis using i inv_heap by blast
  qed
qed

text \<open>
  Claim C1. In every state that the service reaches from a fresh start through
  \<open>create\<close>, \<open>start\<close>, \<open>pause\<close>, \<open>cancel\<close>, \<open>delete\<close>, the steps of the
  processing loops (a send that succeeds, fails or throws; the wake-up of the loop,
  with its skips) and restarts of the process, every campaign - in the map, held by
  an invocation of the loop, or saved in the file - has
  \<open>sent + failed + pending = total\<close>, and while it is running
  \<open>pending = total - currentIndex\<close>.
\<close>

theorem campaign_stats_invariant:
  assumes "reachable s"
    and "broadcasts_get s bid = Some b \<or> b \<in> set (dataFile s) \<or>
         (\<exists>t \<in> set (tasks s). b = heap s (task_broadcast t))"
  shows "stats_sent (stats b) + stats_failed (stats b) + stats_pending (stats b)
           = stats_total (stats b) \<and>
         (status b = Running \<longrightarrow>
            stats_pending (stats b) = stats_total (stats b) - int (currentIndex b))"
  using reachable_campaign_counts [OF assms] by (simp add: stats_consistent_def)

text \<open>A campaign of two recipients after its first send.\<close>

definition one_sent :: service where
  "one_sent = play new_service
     [SetWhatsAppManager (Some connected_manager),
      Create ''b1'' at_2330 (campaign_options [''111'', ''222'']),
      Start ''b1'' at_2330,
      SendSettled 0 (Resolved True None) (1 / 2) at_2330]"

lemma one_sent_b1:
  "broadcasts_get one_sent ''b1'' = Some (heap one_sent 0) \<and>
   status (heap one_sent 0) = Running \<and> currentIndex (heap one_sent 0) = 1 \<and>
   stats (heap one_sent 0) = \<lparr>stats_total = 2, stats_sent = 1, stats_failed = 0, stats_pending = 1\<rparr>"
  by (simp add: one_sent_def eval_defs)

theorem campaign_stats_invariant_witness:
  "reachable one_sent \<and>
   broadcasts_get one_sent ''b1'' = Some (heap one_sent 0) \<and>
   status (heap one_sent 0) = Running \<and>
   currentIndex (heap one_sent 0) = 1 \<and>
   stats (heap one_sent 0) =
     \<lparr>stats_total = 2, stats_sent = 1, stats_failed = 0, stats_pending = 1\<rparr> \<and>
   stats_sent (stats (heap one_sent 0)) + stats_failed (stats (heap one_sent 0)) +
     stats_pending (stats (heap one_sent 0)) = stats_total (stats (heap one_sent 0)) \<and>
   stats_pending (stats (heap one_sent 0)) =
     stats_total (stats (heap one_sent 0)) - int (currentIndex (heap one_sent 0))"
proof -
  have r: "reachable one_sent"
    unfolding one_sent_def by (rule reachable_play) (rule reachable.initial)
  have g: "broadcasts_get one_sent ''b1'' = Some (heap one_sent 0)"
    using one_sent_b1 by simp
  have "broadcasts_get one_sent ''b1'' = Some (heap one_sent 0) \<or>
        heap one_sent 0 \<in> set (dataFile one_sent) \<or>
        (\<exists>t \<in> set (tasks one_sent). heap one_sent 0 = heap one_sent (task_broadcast t))"
    using g by simp
  from campaign_stats_invariant [OF r this] r one_sent_b1 show ?thesis by simp
qed

text \<open>
  Claim C5. \<open>start(id)\<close> returns a failure when the campaign is already running or
  completed, and when its session is missing or not connected (or no manager is set);
  and whenever \<open>start\<close> returns a failure, the whole service - the campaign record
  with its status, counts, cursor, recipients and time stamps included - is unchanged.
\<close>

theorem start_failure_leaves_state:
  "(\<forall>ref. map_of (broadcasts s) bid = Some ref \<and>
          (status (heap s ref) = Running \<or> status (heap s ref) = Completed \<or>
           \<not> session_connected s (b_sessionId (heap s ref)))
          \<longrightarrow> (\<exists>msg. start s bid now = (Failure msg, s))) \<and>
   (\<forall>msg s'. start s bid now = (Failure msg, s') \<longrightarrow> s' = s)"
proof (intro conjI allI impI)
  fix ref
  assume "map_of (broadcasts s) bid = Some ref \<and>
          (status (heap s ref) = Running \<or> status (heap s ref) = Completed \<or>
           \<not> session_connected s (b_sessionId (heap s ref)))"
  then show "\<exists>msg. start s bid now = (Failure msg, s)"
    using start_rejects by blast
next
  fix msg s'
  assume f: "start s bid now = (Failure msg, s')"
  show "s' = s"
  proof (cases "map_of (broadcasts s) bid")
    case None
    with f show ?thesis by (simp add: start_unknown)
  next
    case (Some ref)
    show ?thesis
    proof (cases "status (heap s ref) = Running \<or> status (heap s ref) = Completed \<or>
                  \<not> session_connected s (b_sessionId (heap s ref))")
      case True
      with start_rejects [OF Some, of now] f show ?thesis by auto
    next
      case False
      with start_accepts [OF Some, of now] f show ?thesis by simp
    qed
  qed
qed

theorem start_failure_leaves_state_witness:
  "map_of (broadcasts one_sent) ''b1'' = Some 0 \<and>
   status (heap one_sent 0) = Running \<and>
   start one_sent ''b1'' at_2330 = (Failure ''Broadcast is already running'', one_sent)"
proof -
  have m: "map_of (broadcasts one_sent) ''b1'' = Some 0"
    by (simp add: one_sent_def eval_defs)
  have st: "status (heap one_sent 0) = Running" using one_sent_b1 by simp
  from start_failure_leaves_state [of one_sent "''b1''" at_2330] m st
  obtain msg where f: "start one_sent ''b1'' at_2330 = (Failure msg, one_sent)" by blast
  have "fst (start one_sent ''b1'' at_2330) = Failure ''Broadcast is already running''"
    using m st by (simp add: start_def)
  with f have "start one_sent ''b1'' at_2330 = (Failure ''Broadcast is already running'', one_sent)"
    by simp
  with m st show ?thesis by simp
qed

text \<open>How one event can change the status of a campaign.\<close>

lemma fire_status_cases:
  assumes "fire s e = Some s'" and "ref < next_ref s" and "e \<noteq> Restart"
  shows "status (heap s' ref) = status (heap s ref) \<or>
         (status (heap s ref) = Running \<and> status (heap s' ref) = Paused \<and> (\<exists>bid. e = Pause bid)) \<or>
         (status (heap s ref) \<noteq> Completed \<and> status (heap s' ref) = Cancelled \<and> (\<exists>bid. e = Cancel bid)) \<or>
         (status (heap s' ref) = Completed \<and> (\<exists>k now. e = TimerFired k now)) \<or>
         (status (heap s ref) \<notin> {Running, Completed} \<and>
          status (heap s' ref) \<in> {Running, Paused, Completed} \<and>
          (\<exists>bid now. e = Start bid now \<and> map_of (broadcasts s) bid = Some ref))"
proof (cases e)
  case (Create bid now options)
  then show ?thesis
    using assms create_status [of s bid now options _ s' ref]
    by (auto split: sum.splits)
next
  case (Start bid now)
  then show ?thesis using assms(1) start_status [of s bid now ref] by auto
next
  case (Pause bid)
  then show ?thesis using assms(1) pause_status [of s bid ref] by auto
next
  case (Cancel bid)
  then show ?thesis using assms(1) cancel_status [of s bid ref] by auto
next
  case (Delete bid)
  then show ?thesis using assms(1) delete_status [of s bid] by auto
next
  case (SendSettled k outcome u now)
  then show ?thesis
    using assms(1) after_send_status [of s k outcome u now ref] by (auto split: if_splits)
next
  case (TimerFired k now)
  then show ?thesis
    using assms(1) after_delay_status [of s k now ref] by (auto split: if_splits)
next
  case (SetWhatsAppManager m)
  then show ?thesis using assms(1) by auto
next
  case Restart
  then show ?thesis using assms(3) by simp
qed

lemma processQueue_connected:
  assumes "map_of (broadcasts s) bid = Some ref" and "status (heap s ref) = Running"
    and "session_connected s (b_sessionId (heap s ref))"
  shows "status (heap (processQueue s bid now) ref) \<in> {Running, Completed}"
proof -
  let ?s1 = "s\<lparr>activeQueues := insert bid (activeQueues s)\<rparr>"
  obtain s2 w where q: "queue_loop ?s1 bid ref = (s2, w)" by fastforce
  have "status (heap s2 ref) = Running"
    using queue_loop_status [of ?s1 bid ref ref] q assms(2) by simp
  then show ?thesis
    using assms q queue_end_status [of s2 bid ref now ref]
    by (auto simp: processQueue_def Let_def session_connected_def split: option.splits)
qed

definition starts_or_wakes :: "event \<Rightarrow> bool" where
  "starts_or_wakes e = (case e of Start bid now \<Rightarrow> True | TimerFired k now \<Rightarrow> True | _ \<Rightarrow> False)"

text \<open>
  Claim C2, as amended. Once a campaign is completed, no call of the service and no
  step of a processing loop changes its status. A cancelled campaign stays cancelled
  under every one of them other than \<open>start\<close> and the wake-up of a processing
  loop; \<open>start(id)\<close> on a cancelled campaign whose session is connected is
  accepted and leaves it running (completed, when no recipient is left to process).
\<close>

theorem completed_is_terminal:
  assumes "fire s e = Some s'" and "ref < next_ref s" and "e \<noteq> Restart"
  shows "(status (heap s ref) = Completed \<longrightarrow> status (heap s' ref) = Completed) \<and>
         (status (heap s ref) = Cancelled \<and> \<not> starts_or_wakes e \<longrightarrow>
            status (heap s' ref) = Cancelled) \<and>
         (\<forall>bid now. status (heap s ref) = Cancelled \<and> e = Start bid now \<and>
            map_of (broadcasts s) bid = Some ref \<and>
            session_connected s (b_sessionId (heap s ref)) \<longrightarrow>
            status (heap s' ref) = Running \<or> status (heap s' ref) = Completed)"
proof (intro conjI allI impI)
  assume "status (heap s ref) = Completed"
  then show "status (heap s' ref) = Completed"
    using fire_status_cases [OF assms] by auto
next
  assume "status (heap s ref) = Cancelled \<and> \<not> starts_or_wakes e"
  then show "status (heap s' ref) = Cancelled"
    using fire_status_cases [OF assms] by (auto simp: starts_or_wakes_def)
next
  fix bid now
  assume h: "status (heap s ref) = Cancelled \<and> e = Start bid now \<and>
            map_of (broadcasts s) bid = Some ref \<and>
            session_connected s (b_sessionId (heap s ref))"
  let ?s1 = "saveBroadcasts (broadcasts_set bid ref (assign ref (started now (heap s ref)) s))"
  have "start s bid now = (Success ''Broadcast started'' (heap (processQueue ?s1 bid now) ref),
                           processQueue ?s1 bid now)"
    using h by (intro start_accepts) auto
  then have s': "s' = processQueue ?s1 bid now" using assms(1) h by simp
  have "status (heap (processQueue ?s1 bid now) ref) \<in> {Running, Completed}"
    using h by (intro processQueue_connected) (auto simp: started_def session_connected_def)
  then show "status (heap s' ref) = Running \<or> status (heap s' ref) = Completed"
    unfolding s' by simp
qed

text \<open>A campaign of one recipient, run to its end; and a campaign of two recipients,
  created and cancelled.\<close>

definition all_sent :: service where
  "all_sent = play new_service
     [SetWhatsAppManager (Some connected_manager),
      Create ''b1'' at_2330 (campaign_options [''111'']),
      Start ''b1'' at_2330,
      SendSettled 0 (Resolved True None) (1 / 2) at_2330,
      TimerFired 0 at_2330]"

definition cancelled_campaign :: service where
  "cancelled_campaign = play new_service
     [SetWhatsAppManager (Some connected_manager),
      Create ''b1'' at_2330 (campaign_options [''111'', ''222'']),
      Cancel ''b1'']"

theorem completed_is_terminal_witness:
  "next_ref all_sent = 1 \<and> status (heap all_sent 0) = Completed \<and>
   fire all_sent (Cancel ''b1'') = Some (snd (cancel all_sent ''b1'')) \<and>
   status (heap (snd (cancel all_sent ''b1'')) 0) = Completed \<and>
   fire all_sent (Start ''b1'' at_2330) = Some (snd (start all_sent ''b1'' at_2330)) \<and>
   status (heap (snd (start all_sent ''b1'' at_2330)) 0) = Completed \<and>
   next_ref cancelled_campaign = 1 \<and> status (heap cancelled_campaign 0) = Cancelled \<and>
   map_of (broadcasts cancelled_campaign) ''b1'' = Some 0 \<and>
   session_connected cancelled_campaign (b_sessionId (heap cancelled_campaign 0)) \<and>
   fire cancelled_campaign (Pause ''b1'') = Some (snd (pause cancelled_campaign ''b1'')) \<and>
   status (heap (snd (pause cancelled_campaign ''b1'')) 0) = Cancelled \<and>
   fire cancelled_campaign (Start ''b1'' at_2330) =
     Some (snd (start cancelled_campaign ''b1'' at_2330)) \<and>
   (status (heap (snd (start cancelled_campaign ''b1'' at_2330)) 0) = Running \<or>
    status (heap (snd (start cancelled_campaign ''b1'' at_2330)) 0) = Completed)"
proof -
  have n: "(0::nat) < next_ref all_sent" "next_ref all_sent = 1"
    by (simp_all add: all_sent_def eval_defs)
  have c: "status (heap all_sent 0) = Completed"
    by (simp add: all_sent_def eval_defs)
  have f1: "fire all_sent (Cancel ''b1'') = Some (snd (cancel all_sent ''b1''))" by simp
  have f2: "fire all_sent (Start ''b1'' at_2330) = Some (snd (start all_sent ''b1'' at_2330))"
    by simp
  from completed_is_terminal [OF f1 n(1)] c
  have a: "status (heap (snd (cancel all_sent ''b1'')) 0) = Completed" by simp
  from completed_is_terminal [OF f2 n(1)] c
  have b: "status (heap (snd (start all_sent ''b1'' at_2330)) 0) = Completed" by simp
  have n': "(0::nat) < next_ref cancelled_campaign" "next_ref cancelled_campaign = 1"
    by (simp_all add: cancelled_campaign_def eval_defs)
  have c': "status (heap cancelled_campaign 0) = Cancelled"
    "map_of (broadcasts cancelled_campaign) ''b1'' = Some 0"
    "session_connected cancelled_campaign (b_sessionId (heap cancelled_campaign 0))"
    by (simp_all add: cancelled_campaign_def session_connected_def eval_defs)
  have f3: "fire cancelled_campaign (Pause ''b1'') = Some (snd (pause cancelled_campaign ''b1''))"
    by simp
  have f4: "fire cancelled_campaign (Start ''b1'' at_2330) =
              Some (snd (start cancelled_campaign ''b1'' at_2330))"
    by simp
  from completed_is_terminal [OF f3 n'(1)] c'(1)
  have a': "status (heap (snd (pause cancelled_campaign ''b1'')) 0) = Cancelled"
    by (simp add: starts_or_wakes_def)
  from completed_is_terminal [OF f4 n'(1)] c'
  have b': "status (heap (snd (start cancelled_campaign ''b1'' at_2330)) 0) = Running \<or>
            status (heap (snd (start cancelled_campaign ''b1'' at_2330)) 0) = Completed"
    by simp
  from n c f1 f2 a b n' c' f3 f4 a' b' show ?thesis by (intro conjI)
qed

text \<open>
  The claim as it was stated fails on \<open>start\<close>: once the campaign of two
  recipients is cancelled, \<open>start\<close> sets it running and sends to the first recipient.
\<close>

theorem start_revives_cancelled_counterexample:
  "map_option status (broadcasts_get cancelled_campaign ''b1'') = Some Cancelled \<and>
   trace cancelled_campaign = [] \<and>
   map_option status (broadcasts_get (snd (start cancelled_campaign ''b1'' at_2330)) ''b1'')
     = Some Running \<and>
   trace (snd (start cancelled_campaign ''b1'' at_2330)) = [SendTextMessage ''111'' ''Hello'' 1000]"
  by (simp add: cancelled_campaign_def eval_defs)

subsection \<open>Rate limiting\<close>

text \<open>
  The events of one invocation \<open>k\<close> that runs alone: each of its sends settles, with
  the value that \<open>Math.random()\<close> would return, and its timer fires. \<open>sleeps\<close> are
  the waits of a trace, in order.
\<close>

fun solo :: "nat \<Rightarrow> clock \<Rightarrow> (send_outcome \<times> real) list \<Rightarrow> event list" where
  "solo k now [] = []"
| "solo k now ((outcome, u) # rest) =
     SendSettled k outcome u now # TimerFired k now # solo k now rest"

definition sleeps :: "effect list \<Rightarrow> int list" where
  "sleeps tr = concat (map (\<lambda>e. case e of Sleep d \<Rightarrow> [d] | _ \<Rightarrow> []) tr)"

lemma sleeps_append [simp]: "sleeps (xs @ ys) = sleeps xs @ sleeps ys"
  by (simp add: sleeps_def)

lemma sleeps_single [simp]:
  "sleeps [Sleep d] = [d]" "sleeps [send_call b r] = []"
  by (simp_all add: sleeps_def send_call_def)

lemma trace_simps [simp]:
  "trace (saveBroadcasts s) = trace s"
  "trace (broadcasts_set bid ref s) = trace s"
  "trace (perform e s) = trace s @ [e]"
  "trace (assign ref b s) = trace s"
  by (simp_all add: saveBroadcasts_def broadcasts_set_def perform_def assign_def)

lemma config_simps [simp]:
  "config (saveBroadcasts s) = config s"
  "config (broadcasts_set bid ref s) = config s"
  "config (perform e s) = config s"
  "config (assign ref b s) = config s"
  by (simp_all add: saveBroadcasts_def broadcasts_set_def perform_def assign_def)

lemma queue_loop_keeps:
  "tasks (fst (queue_loop s bid r)) = tasks s \<and>
   config (fst (queue_loop s bid r)) = config s \<and>
   sleeps (trace (fst (queue_loop s bid r))) = sleeps (trace s)"
proof (induction s bid r rule: queue_loop.induct)
  case (1 s bid r)
  show ?case
    by (subst (1 2 3) queue_loop.simps) (use 1 in \<open>auto simp: Let_def split: option.splits\<close>)
qed

lemma queue_end_keeps [simp]:
  "config (queue_end s bid r now) = config s"
  "trace (queue_end s bid r now) = trace s"
  by (simp_all add: queue_end_def Let_def)

lemma after_send_sleep:
  assumes "k < length (tasks s)" and "suspended (tasks s ! k) = AwaitSend i"
  shows "sleeps (trace (after_send s k outcome u now)) =
           sleeps (trace s) @
             [if batchSize (config s) \<le> messagesInBatch (tasks s ! k) + 1
              then batchDelay (config s) else getRandomDelay (config s) u]"
    and "messagesInBatch (tasks (after_send s k outcome u now) ! k) =
           (if batchSize (config s) \<le> messagesInBatch (tasks s ! k) + 1 then 0
            else messagesInBatch (tasks s ! k) + 1)"
    and "suspended (tasks (after_send s k outcome u now) ! k) = AwaitTimer"
    and "length (tasks (after_send s k outcome u now)) = length (tasks s)"
    and "config (after_send s k outcome u now) = config s"
  using assms by (simp_all add: after_send_def Let_def)

lemma after_delay_sleep:
  assumes "k < length (tasks s)" and "suspended (tasks s ! k) = AwaitTimer"
  shows "sleeps (trace (after_delay s k now)) = sleeps (trace s)"
    and "messagesInBatch (tasks (after_delay s k now) ! k) = messagesInBatch (tasks s ! k)"
    and "length (tasks (after_delay s k now)) = length (tasks s)"
    and "config (after_delay s k now) = config s"
proof -
  let ?t = "tasks s ! k"
  obtain s1 w where q: "queue_loop s (task_id ?t) (task_broadcast ?t) = (s1, w)" by fastforce
  have k: "tasks s1 = tasks s" "config s1 = config s" "sleeps (trace s1) = sleeps (trace s)"
    using queue_loop_keeps [of s "task_id ?t" "task_broadcast ?t"] q by simp_all
  show "sleeps (trace (after_delay s k now)) = sleeps (trace s)"
    "messagesInBatch (tasks (after_delay s k now) ! k) = messagesInBatch (tasks s ! k)"
    "length (tasks (after_delay s k now)) = length (tasks s)"
    "config (after_delay s k now) = config s"
    using assms q k by (simp_all add: after_delay_def Let_def)
qed

lemma solo_sleeps:
  assumes "run s (solo k now draws) = Some s'"
    and "k < length (tasks s)"
    and "1 \<le> batchSize (config s)"
    and "0 \<le> messagesInBatch (tasks s ! k)" and "messagesInBatch (tasks s ! k) < batchSize (config s)"
    and "batchSize (config s) dvd int n - 1 - messagesInBatch (tasks s ! k)"
  shows "sleeps (trace s') =
           sleeps (trace s) @
             map (\<lambda>(j, (outcome, u)).
                    if batchSize (config s) dvd int j then batchDelay (config s)
                    else getRandomDelay (config s) u)
               (enumerate n draws)"
  using assms
proof (induction draws arbitrary: s n)
  case Nil
  then show ?case by simp
next
  case (Cons d draws)
  obtain outcome u where d: "d = (outcome, u)" by (cases d)
  let ?B = "batchSize (config s)"
  let ?m = "messagesInBatch (tasks s ! k)"
  let ?s1 = "after_send s k outcome u now"
  let ?s2 = "after_delay ?s1 k now"
  from Cons.prems(1) d have en: "awaits_send (tasks s ! k)" "0 \<le> u" "u < 1"
    by (auto split: if_splits option.splits)
  then obtain i where i: "suspended (tasks s ! k) = AwaitSend i"
    by (auto simp: awaits_send_def split: suspension.splits)
  note a = after_send_sleep [OF Cons.prems(2) i, of outcome u now]
  have f1: "fire s (SendSettled k outcome u now) = Some ?s1"
    using en Cons.prems(2) by simp
  have k1: "k < length (tasks ?s1)" using a(4) Cons.prems(2) by simp
  note b = after_delay_sleep [OF k1 a(3), of now]
  have f2: "fire ?s1 (TimerFired k now) = Some ?s2"
    using k1 a(3) by simp
  have rest: "run ?s2 (solo k now draws) = Some s'"
    using Cons.prems(1) d f1 f2 by simp
  have cfg: "config ?s2 = config s" using a(5) b(4) by simp
  have m2: "messagesInBatch (tasks ?s2 ! k) = (if ?B \<le> ?m + 1 then 0 else ?m + 1)"
    using a(2) b(2) by simp
  have batch: "?B \<le> ?m + 1 \<longleftrightarrow> ?B dvd int n"
  proof
    assume "?B \<le> ?m + 1"
    then have "?m + 1 = ?B" using Cons.prems(5) by simp
    then have "int n = (int n - 1 - ?m) + ?B" by simp
    then show "?B dvd int n" using Cons.prems(6) by (metis dvd_add dvd_refl)
  next
    assume dv: "?B dvd int n"
    have "?B dvd int n - (int n - 1 - ?m)" using dv Cons.prems(6) by (rule dvd_diff)
    then have "?B dvd ?m + 1" by (simp add: algebra_simps)
    then show "?B \<le> ?m + 1"
      using Cons.prems(4) by (intro zdvd_imp_le) simp_all
  qed
  have k2: "k < length (tasks ?s2)" using b(3) k1 by simp
  have iv: "0 \<le> messagesInBatch (tasks ?s2 ! k)" "messagesInBatch (tasks ?s2 ! k) < batchSize (config ?s2)"
    using m2 cfg Cons.prems(3,4,5) by auto
  have dv2: "batchSize (config ?s2) dvd int (Suc n) - 1 - messagesInBatch (tasks ?s2 ! k)"
  proof (cases "?B \<le> ?m + 1")
    case True
    then show ?thesis using m2 cfg batch by simp
  next
    case False
    then have "messagesInBatch (tasks ?s2 ! k) = ?m + 1" using m2 by simp
    then have "int (Suc n) - 1 - messagesInBatch (tasks ?s2 ! k) = int n - 1 - ?m" by simp
    then show ?thesis using cfg Cons.prems(6) by (simp only:)
  qed
  have "sleeps (trace s') =
           sleeps (trace ?s2) @
             map (\<lambda>(j, (outcome, u)).
                    if batchSize (config ?s2) dvd int j then batchDelay (config ?s2)
                    else getRandomDelay (config ?s2) u)
               (enumerate (Suc n) draws)"
    using cfg Cons.prems(3) by (intro Cons.IH [OF rest k2 _ iv dv2]) simp
  then have "sleeps (trace s') =
           sleeps (trace ?s2) @
             map (\<lambda>(j, (outcome, u)).
                    if batchSize (config s) dvd int j then batchDelay (config s)
                    else getRandomDelay (config s) u)
               (enumerate (Suc n) draws)"
    unfolding cfg .
  moreover have "sleeps (trace ?s2) =
      sleeps (trace s) @ [if ?B dvd int n then batchDelay (config s) else getRandomDelay (config s) u]"
    using a(1) b(1) batch by simp
  ultimately show ?case using d by simp
qed

text \<open>
  \<open>_getRandomDelay\<close> on real numbers: the delay is an integer between the two
  bounds, and it takes the value \<open>d\<close> exactly on an interval of \<open>u\<close> whose length
  is the same for every \<open>d\<close> (one over the number of values).
\<close>

lemma getRandomDelay_preimage:
  assumes "minDelay c \<le> maxDelay c"
  shows "getRandomDelay c u = d \<longleftrightarrow>
           real_of_int (d - minDelay c) / real_of_int (maxDelay c - minDelay c + 1) \<le> u \<and>
           u < real_of_int (d - minDelay c + 1) / real_of_int (maxDelay c - minDelay c + 1)"
proof -
  let ?N = "real_of_int (maxDelay c - minDelay c + 1)"
  have N: "0 < ?N" using assms by simp
  have "getRandomDelay c u = d \<longleftrightarrow> \<lfloor>u * ?N\<rfloor> = d - minDelay c"
    by (auto simp: getRandomDelay_def)
  also have "\<dots> \<longleftrightarrow> real_of_int (d - minDelay c) \<le> u * ?N \<and>
                       u * ?N < real_of_int (d - minDelay c) + 1"
    by (rule floor_eq_iff)
  also have "\<dots> \<longleftrightarrow> real_of_int (d - minDelay c) / ?N \<le> u \<and>
                       u < real_of_int (d - minDelay c + 1) / ?N"
    using N by (simp add: pos_divide_le_eq pos_less_divide_eq)
  finally show ?thesis .
qed

lemma getRandomDelay_range:
  assumes "minDelay c \<le> maxDelay c" and "0 \<le> u" and "u < 1"
  shows "minDelay c \<le> getRandomDelay c u \<and> getRandomDelay c u \<le> maxDelay c"
proof -
  let ?N = "maxDelay c - minDelay c + 1"
  have N: "0 < real_of_int ?N" using assms(1) by simp
  have "0 \<le> u * real_of_int ?N" using assms(2) N by simp
  then have lo: "0 \<le> \<lfloor>u * real_of_int ?N\<rfloor>" by simp
  have "u * real_of_int ?N < real_of_int ?N" using assms(3) N by simp
  then have hi: "\<lfloor>u * real_of_int ?N\<rfloor> < ?N" unfolding floor_less_iff .
  from lo hi show ?thesis by (simp add: getRandomDelay_def)
qed

text \<open>
  Claim C8. An invocation of the processing loop that starts with its batch counter at
  0 (as every invocation does) and processes items one after the other waits once
  after each item: after the \<open>j\<close>-th item the wait is the batch pause \<open>batchDelay\<close>
  exactly when \<open>batchSize\<close> divides \<open>j\<close>, and otherwise the random delay. The
  random delay \<open>_getRandomDelay\<close> is an integer of the interval from \<open>minDelay\<close> to
  \<open>maxDelay\<close>, both included, and each value of the interval is drawn on an interval of
  \<open>Math.random()\<close> of the same length (\<open>Math.random()\<close> taken as a real number).
\<close>

theorem batch_pause_every_batchSize:
  assumes "run s (solo k now draws) = Some s'"
    and "k < length (tasks s)"
    and "messagesInBatch (tasks s ! k) = 0"
    and "1 \<le> batchSize (config s)"
    and "minDelay (config s) \<le> maxDelay (config s)"
  shows "sleeps (trace s') =
           sleeps (trace s) @
             map (\<lambda>(j, (outcome, u)).
                    if batchSize (config s) dvd int j then batchDelay (config s)
                    else getRandomDelay (config s) u)
               (enumerate 1 draws) \<and>
         (\<forall>u. 0 \<le> u \<and> u < 1 \<longrightarrow>
              minDelay (config s) \<le> getRandomDelay (config s) u \<and>
              getRandomDelay (config s) u \<le> maxDelay (config s)) \<and>
         (\<forall>d u. getRandomDelay (config s) u = d \<longleftrightarrow>
              real_of_int (d - minDelay (config s)) /
                real_of_int (maxDelay (config s) - minDelay (config s) + 1) \<le> u \<and>
              u < real_of_int (d - minDelay (config s) + 1) /
                    real_of_int (maxDelay (config s) - minDelay (config s) + 1))"
proof (intro conjI allI impI)
  show "sleeps (trace s') =
           sleeps (trace s) @
             map (\<lambda>(j, (outcome, u)).
                    if batchSize (config s) dvd int j then batchDelay (config s)
                    else getRandomDelay (config s) u)
               (enumerate 1 draws)"
    using assms(3,4) by (intro solo_sleeps [OF assms(1,2)]) simp_all
next
  fix u :: real
  assume "0 \<le> u \<and> u < 1"
  then show "minDelay (config s) \<le> getRandomDelay (config s) u"
    "getRandomDelay (config s) u \<le> maxDelay (config s)"
    using getRandomDelay_range [OF assms(5)] by blast+
next
  fix d u
  show "getRandomDelay (config s) u = d \<longleftrightarrow>
              real_of_int (d - minDelay (config s)) /
                real_of_int (maxDelay (config s) - minDelay (config s) + 1) \<le> u \<and>
              u < real_of_int (d - minDelay (config s) + 1) /
                    real_of_int (maxDelay (config s) - minDelay (config s) + 1)"
    by (rule getRandomDelay_preimage [OF assms(5)])
qed

lemma run_play: "run s es = Some s' \<Longrightarrow> play s es = s'"
  by (induction es arbitrary: s) (auto split: option.splits)

lemma run_play_iff: "run s es \<noteq> None \<Longrightarrow> run s es = Some (play s es)"
  using run_play by fastforce

text \<open>
  With the limits of the constructor: a campaign of eleven recipients, of which ten
  are processed. Nine random delays, then one batch pause of 30 seconds.
\<close>

definition eleven_started :: service where
  "eleven_started = play new_service
     [SetWhatsAppManager (Some connected_manager),
      Create ''b1'' at_2330
        (campaign_options [''101'', ''102'', ''103'', ''104'', ''105'', ''106'', ''107'',
                           ''108'', ''109'', ''110'', ''111'']),
      Start ''b1'' at_2330]"

definition ten_draws :: "(send_outcome \<times> real) list" where
  "ten_draws = replicate 9 (Resolved True None, 1 / 2) @ [(Rejected (Some ''timeout''), 0)]"

theorem batch_pause_every_batchSize_witness:
  "run eleven_started (solo 0 at_2330 ten_draws) =
     Some (play eleven_started (solo 0 at_2330 ten_draws)) \<and>
   length (tasks eleven_started) = 1 \<and>
   messagesInBatch (tasks eleven_started ! 0) = 0 \<and>
   config eleven_started = default_config \<and>
   sleeps (trace (play eleven_started (solo 0 at_2330 ten_draws))) =
     [5500, 5500, 5500, 5500, 5500, 5500, 5500, 5500, 5500, 30000] \<and>
   getRandomDelay default_config 0 = 3000 \<and>
   getRandomDelay default_config (5000 / 5001) = 8000"
proof -
  have r: "run eleven_started (solo 0 at_2330 ten_draws) =
     Some (play eleven_started (solo 0 at_2330 ten_draws))"
    by (rule run_play_iff)
       (simp add: eleven_started_def ten_draws_def eval_defs numeral_eq_Suc)
  have st: "tasks eleven_started =
     [\<lparr>task_id = ''b1'', task_broadcast = 0, messagesInBatch = 0, suspended = AwaitSend 0\<rparr>]"
    "config eleven_started = default_config"
    "trace eleven_started = [SendTextMessage ''101'' ''Hello'' 1000]"
    by (simp_all add: eleven_started_def eval_defs)
  have k: "0 < length (tasks eleven_started)"
    and m: "messagesInBatch (tasks eleven_started ! 0) = 0"
    and b: "1 \<le> batchSize (config eleven_started)"
    and d: "minDelay (config eleven_started) \<le> maxDelay (config eleven_started)"
    by (simp_all add: st default_config_def)
  from batch_pause_every_batchSize [OF r k m b d]
  have "sleeps (trace (play eleven_started (solo 0 at_2330 ten_draws))) =
          sleeps (trace eleven_started) @
             map (\<lambda>(j, (outcome, u)).
                    if batchSize (config eleven_started) dvd int j
                    then batchDelay (config eleven_started)
                    else getRandomDelay (config eleven_started) u)
               (enumerate 1 ten_draws)"
    by blast
  also have "\<dots> = [5500, 5500, 5500, 5500, 5500, 5500, 5500, 5500, 5500, 30000]"
    by (simp add: st sleeps_def ten_draws_def default_config_def getRandomDelay_def
          numeral_eq_Suc enumerate_append_eq)
  finally have s: "sleeps (trace (play eleven_started (solo 0 at_2330 ten_draws))) =
     [5500, 5500, 5500, 5500, 5500, 5500, 5500, 5500, 5500, 30000]" .
  have g: "getRandomDelay default_config 0 = 3000"
    "getRandomDelay default_config (5000 / 5001) = 8000"
    by (simp_all add: default_config_def getRandomDelay_def)
  from r st s g m show ?thesis by simp
qed

subsection \<open>Pause and resume\<close>

text \<open>\<open>sent_to\<close> lists the chats that the sends of a trace went to, in order.\<close>

definition is_pending :: "recipient \<Rightarrow> bool" where
  "is_pending r \<longleftrightarrow> recipient_status r = Pending"

definition sent_to :: "effect list \<Rightarrow> string list" where
  "sent_to tr =
     concat (map (\<lambda>e. case e of
                          SendTextMessage c m t \<Rightarrow> [c]
                        | SendImage c url cap t \<Rightarrow> [c]
                        | SendDocument c url n m t \<Rightarrow> [c]
                        | Sleep d \<Rightarrow> []) tr)"

lemma sent_to_append [simp]: "sent_to (xs @ ys) = sent_to xs @ sent_to ys"
  by (simp add: sent_to_def)

lemma sent_to_single [simp]:
  "sent_to [Sleep d] = []" "sent_to [send_call b r] = [recipient_chatId r]"
  by (simp_all add: sent_to_def send_call_def)

lemma send_call_cursor [simp]: "send_call (b\<lparr>currentIndex := j\<rparr>) r = send_call b r"
  by (simp add: send_call_def)

text \<open>
  The loop from its head, on a running campaign of the map: it advances the cursor over
  the recipients that are not pending, attempting no send for them, and sends to the
  first pending one; when none is left the cursor ends behind the last recipient.
\<close>

lemma queue_loop_running:
  assumes "map_of (broadcasts s) bid = Some ref" and "status (heap s ref) = Running"
    and "j = currentIndex (heap s ref) +
             length (takeWhile (\<lambda>r. \<not> is_pending r)
                       (drop (currentIndex (heap s ref)) (recipients (heap s ref))))"
  shows "queue_loop s bid ref =
           (if j < length (recipients (heap s ref))
            then (perform (send_call (heap s ref) (recipients (heap s ref) ! j))
                    (assign ref (heap s ref\<lparr>currentIndex := j\<rparr>) s), AwaitSend j)
            else (assign ref (heap s ref\<lparr>currentIndex := j\<rparr>) s, Returned))"
  using assms
proof (induction s bid ref arbitrary: j rule: queue_loop.induct)
  case (1 s bid ref)
  let ?b = "heap s ref"
  let ?c = "currentIndex ?b"
  let ?rs = "recipients ?b"
  have get: "broadcasts_get s bid = Some ?b"
    using "1.prems"(1) by (simp add: broadcasts_get_def)
  have triv: "assign ref (?b\<lparr>currentIndex := ?c\<rparr>) s = s"
    by (simp add: assign_def)
  show ?case
  proof (cases "?c < length ?rs")
    case False
    then have "j = ?c" using "1.prems"(3) by simp
    with False triv show ?thesis
      by (subst queue_loop.simps) (simp add: Let_def)
  next
    case True
    then have dr: "drop ?c ?rs = (?rs ! ?c) # drop (Suc ?c) ?rs"
      by (simp add: Cons_nth_drop_Suc)
    show ?thesis
    proof (cases "is_pending (?rs ! ?c)")
      case p: True
      then have "j = ?c" using "1.prems"(3) dr by simp
      with True p triv get "1.prems"(2) show ?thesis
        by (subst queue_loop.simps) (simp add: Let_def is_pending_def)
    next
      case np: False
      let ?s' = "assign ref (?b\<lparr>currentIndex := ?c + 1\<rparr>) s"
      have j: "j = currentIndex (heap ?s' ref) +
                 length (takeWhile (\<lambda>r. \<not> is_pending r)
                           (drop (currentIndex (heap ?s' ref)) (recipients (heap ?s' ref))))"
        using "1.prems"(3) dr np by simp
      have ih: "queue_loop ?s' bid ref =
           (if j < length (recipients (heap ?s' ref))
            then (perform (send_call (heap ?s' ref) (recipients (heap ?s' ref) ! j))
                    (assign ref (heap ?s' ref\<lparr>currentIndex := j\<rparr>) ?s'), AwaitSend j)
            else (assign ref (heap ?s' ref\<lparr>currentIndex := j\<rparr>) ?s', Returned))"
        using True get "1.prems"(1,2) np
        by (intro "1.IH" [OF refl _ get _ refl _ _ _ j])
           (simp_all add: is_pending_def)
      have ov: "assign ref (heap ?s' ref\<lparr>currentIndex := j\<rparr>) ?s' =
                assign ref (?b\<lparr>currentIndex := j\<rparr>) s"
        by (simp add: assign_def)
      have "queue_loop s bid ref = queue_loop ?s' bid ref"
        using True get "1.prems"(2) np
        by (subst queue_loop.simps) (simp add: Let_def is_pending_def)
      then show ?thesis
        unfolding ih ov by simp
    qed
  qed
qed

lemma filter_after_skip:
  fixes xs :: "'a list" and P :: "'a \<Rightarrow> bool"
  defines "sk \<equiv> takeWhile (\<lambda>x. \<not> P x) xs"
  shows "length sk < length xs \<Longrightarrow>
           filter P xs = (xs ! length sk) # filter P (drop (Suc (length sk)) xs)"
    and "\<not> length sk < length xs \<Longrightarrow> filter P xs = []"
proof -
  have split: "xs = sk @ dropWhile (\<lambda>x. \<not> P x) xs"
    unfolding sk_def by simp
  have none: "filter P sk = []"
    unfolding sk_def by (induction xs) auto
  {
    assume lt: "length sk < length xs"
    then have ne: "dropWhile (\<lambda>x. \<not> P x) xs \<noteq> []"
      using split by (metis append_Nil2 less_irrefl)
    then obtain y ys where d: "dropWhile (\<lambda>x. \<not> P x) xs = y # ys"
      by (cases "dropWhile (\<lambda>x. \<not> P x) xs") auto
    have py: "P y" using d hd_dropWhile [OF ne] by simp
    have xs: "xs = sk @ y # ys" using split d by simp
    have "xs ! length sk = y" by (subst xs) simp
    moreover have "drop (Suc (length sk)) xs = ys" by (subst xs) simp
    moreover have "filter P xs = y # filter P ys"
      by (subst xs) (simp add: none py)
    ultimately show "filter P xs = (xs ! length sk) # filter P (drop (Suc (length sk)) xs)"
      by simp
  }
  {
    assume "\<not> length sk < length xs"
    then have "sk = xs" using split by (metis append_eq_conv_conj length_takeWhile_le nat_less_le sk_def take_all_iff)
    then show "filter P xs = []" using none by simp
  }
qed

lemma settle_keeps:
  "drop (Suc j) (recipients (settle outcome now j b)) = drop (Suc j) (recipients b)"
  "status (settle outcome now j b) = status b"
  "currentIndex (settle outcome now j b) = currentIndex b"
  "length (recipients (settle outcome now j b)) = length (recipients b)"
proof -
  obtain r where r: "recipients (settle outcome now j b) = (recipients b)[j := r]"
    using settle_recipients by blast
  show "drop (Suc j) (recipients (settle outcome now j b)) = drop (Suc j) (recipients b)"
    unfolding r by (rule drop_update_cancel) simp
qed simp_all

lemma after_send_effect:
  assumes "k < length (tasks s)" and "suspended (tasks s ! k) = AwaitSend j"
    and "ref = task_broadcast (tasks s ! k)"
  shows "heap (after_send s k outcome u now) ref =
           (settle outcome now j (heap s ref))\<lparr>currentIndex := Suc (currentIndex (heap s ref))\<rparr>"
    and "map_of (broadcasts (after_send s k outcome u now)) =
           (map_of (broadcasts s))(task_id (tasks s ! k) \<mapsto> ref)"
    and "task_id (tasks (after_send s k outcome u now) ! k) = task_id (tasks s ! k)"
    and "task_broadcast (tasks (after_send s k outcome u now) ! k) = ref"
    and "sent_to (trace (after_send s k outcome u now)) = sent_to (trace s)"
  using assms by (simp_all add: after_send_def Let_def)

text \<open>
  An invocation that runs alone, from the send it awaits to its end: every pending
  recipient after the cursor gets exactly one send, in the order of the list, and
  the campaign ends completed. The run exists: each of its events can fire.
\<close>

lemma valid_draws_Cons:
  "list_all (\<lambda>(outcome, u). 0 \<le> u \<and> u < (1::real)) ((outcome, u) # rest) \<longleftrightarrow>
     0 \<le> u \<and> u < 1 \<and> list_all (\<lambda>(outcome, u). 0 \<le> u \<and> u < (1::real)) rest"
  by simp

lemma solo_resume:
  assumes "k < length (tasks s)"
    and "suspended (tasks s ! k) = AwaitSend j"
    and "ref = task_broadcast (tasks s ! k)"
    and "map_of (broadcasts s) (task_id (tasks s ! k)) = Some ref"
    and "status (heap s ref) = Running"
    and "currentIndex (heap s ref) = j"
    and "length draws = Suc (length (filter is_pending (drop (Suc j) (recipients (heap s ref)))))"
    and "list_all (\<lambda>(outcome, u). 0 \<le> u \<and> u < (1::real)) draws"
  shows "\<exists>s'. run s (solo k now draws) = Some s' \<and>
              sent_to (trace s') =
                sent_to (trace s) @
                  map recipient_chatId (filter is_pending (drop (Suc j) (recipients (heap s ref)))) \<and>
              status (heap s' ref) = Completed"
  using assms
proof (induction draws arbitrary: s j)
  case Nil
  then show ?case by simp
next
  case (Cons d rest)
  obtain outcome u where d: "d = (outcome, u)" by (cases d)
  let ?bid = "task_id (tasks s ! k)"
  let ?rs = "recipients (heap s ref)"
  let ?n = "length ?rs"
  let ?s1 = "after_send s k outcome u now"
  let ?s2 = "after_delay ?s1 k now"
  have u: "0 \<le> u" "u < 1" and rest_ok: "list_all (\<lambda>(outcome, u). 0 \<le> u \<and> u < (1::real)) rest"
    using Cons.prems(8) d by simp_all
  have f1: "fire s (SendSettled k outcome u now) = Some ?s1"
    using Cons.prems(1,2) u by (simp add: awaits_send_def)
  note e = after_send_effect [OF Cons.prems(1,2,3), of outcome u now]
  note sl = after_send_sleep [OF Cons.prems(1,2), of outcome u now]
  have k1: "k < length (tasks ?s1)" using sl(4) Cons.prems(1) by simp
  have f2: "fire ?s1 (TimerFired k now) = Some ?s2" using k1 sl(3) by simp
  have h1: "status (heap ?s1 ref) = Running" "currentIndex (heap ?s1 ref) = Suc j"
    "drop (Suc j) (recipients (heap ?s1 ref)) = drop (Suc j) ?rs"
    "length (recipients (heap ?s1 ref)) = ?n"
    using Cons.prems(5,6) by (simp_all add: e(1) settle_keeps)
  have m1: "map_of (broadcasts ?s1) ?bid = Some ref" by (simp add: e(2))
  let ?sk = "takeWhile (\<lambda>r. \<not> is_pending r) (drop (Suc j) ?rs)"
  let ?j' = "Suc j + length ?sk"
  have j': "?j' = currentIndex (heap ?s1 ref) +
      length (takeWhile (\<lambda>r. \<not> is_pending r)
                (drop (currentIndex (heap ?s1 ref)) (recipients (heap ?s1 ref))))"
    by (simp add: h1)
  note q = queue_loop_running [OF m1 h1(1) j']
  have run2: "run s (solo k now (d # rest)) = run ?s2 (solo k now rest)"
    using d f1 f2 by simp
  show ?case
  proof (cases "?j' < ?n")
    case True
    then have lt: "length ?sk < length (drop (Suc j) ?rs)" by simp
    have fl: "filter is_pending (drop (Suc j) ?rs) =
                (?rs ! ?j') # filter is_pending (drop (Suc ?j') ?rs)"
      using filter_after_skip(1) [OF lt] True by (simp add: add.commute)
    have nth1: "recipients (heap ?s1 ref) ! ?j' = ?rs ! ?j'"
    proof -
      have "recipients (heap ?s1 ref) ! ?j' = drop (Suc j) (recipients (heap ?s1 ref)) ! length ?sk"
        using True h1(4) by simp
      also have "\<dots> = drop (Suc j) ?rs ! length ?sk" by (simp only: h1(3))
      also have "\<dots> = ?rs ! ?j'" using True by simp
      finally show ?thesis .
    qed
    let ?s1' = "perform (send_call (heap ?s1 ref) (recipients (heap ?s1 ref) ! ?j'))
                  (assign ref (heap ?s1 ref\<lparr>currentIndex := ?j'\<rparr>) ?s1)"
    have ql: "queue_loop ?s1 ?bid ref = (?s1', AwaitSend ?j')"
      using q True h1(4) by simp
    have s2: "?s2 = ?s1'\<lparr>tasks := (tasks ?s1')[k := (tasks ?s1 ! k)\<lparr>suspended := AwaitSend ?j'\<rparr>]\<rparr>"
      using sl(3) ql e(3,4) by (simp add: after_delay_def Let_def)
    have p2: "k < length (tasks ?s2)"
      "suspended (tasks ?s2 ! k) = AwaitSend ?j'"
      "ref = task_broadcast (tasks ?s2 ! k)"
      "map_of (broadcasts ?s2) (task_id (tasks ?s2 ! k)) = Some ref"
      "status (heap ?s2 ref) = Running"
      "currentIndex (heap ?s2 ref) = ?j'"
      "recipients (heap ?s2 ref) = recipients (heap ?s1 ref)"
      "sent_to (trace ?s2) = sent_to (trace s) @ [recipient_chatId (?rs ! ?j')]"
      using k1 e(3,4,5) m1 h1(1) nth1 by (simp_all add: s2)
    have dr2: "drop (Suc ?j') (recipients (heap ?s2 ref)) = drop (Suc ?j') ?rs"
    proof -
      have "drop (Suc ?j') (recipients (heap ?s1 ref)) =
            drop (Suc (length ?sk)) (drop (Suc j) (recipients (heap ?s1 ref)))"
        by (simp add: add.commute)
      also have "\<dots> = drop (Suc (length ?sk)) (drop (Suc j) ?rs)" by (simp only: h1(3))
      also have "\<dots> = drop (Suc ?j') ?rs" by (simp add: add.commute)
      finally show ?thesis by (simp add: p2(7))
    qed
    have len: "length rest = Suc (length (filter is_pending (drop (Suc ?j') (recipients (heap ?s2 ref)))))"
      using Cons.prems(7) fl dr2 by simp
    from Cons.IH [OF p2(1,2,3,4,5,6) len rest_ok]
    obtain s' where s': "run ?s2 (solo k now rest) = Some s'"
      "sent_to (trace s') = sent_to (trace ?s2) @
          map recipient_chatId (filter is_pending (drop (Suc ?j') (recipients (heap ?s2 ref))))"
      "status (heap s' ref) = Completed"
      by blast
    have "sent_to (trace s') = sent_to (trace s) @
            map recipient_chatId (filter is_pending (drop (Suc j) ?rs))"
      using s'(2) p2(8) dr2 fl by simp
    with s'(1,3) run2 show ?thesis by simp
  next
    case False
    have nl: "\<not> length ?sk < length (drop (Suc j) ?rs)" using False by simp
    have fl: "filter is_pending (drop (Suc j) ?rs) = []"
      using filter_after_skip(2) [OF nl] .
    then have rest: "rest = []" using Cons.prems(7) by simp
    let ?s1' = "assign ref (heap ?s1 ref\<lparr>currentIndex := ?j'\<rparr>) ?s1"
    have ql: "queue_loop ?s1 ?bid ref = (?s1', Returned)"
      using q False h1(4) by simp
    have s2: "?s2 = (queue_end ?s1' ?bid ref now)
                \<lparr>tasks := (tasks ?s1')[k := (tasks ?s1 ! k)\<lparr>suspended := Returned\<rparr>]\<rparr>"
      using sl(3) ql e(3,4) by (simp add: after_delay_def Let_def)
    have "status (heap ?s2 ref) = Completed"
      using False h1(4) by (simp add: s2 queue_end_def Let_def)
    moreover have "sent_to (trace ?s2) = sent_to (trace s)"
      using e(5) by (simp add: s2)
    ultimately show ?thesis using run2 rest fl by simp
  qed
qed

text \<open>
  Resuming a paused campaign whose session is connected, when the invocation that
  \<open>start\<close> launches is the only one to act on the campaign (the earlier one has
  left its loop): processing resumes at the cursor, and exactly the pending recipients
  from the cursor on are sent to, each once.
\<close>

lemma resume_sends_each_pending_once:
  assumes "map_of (broadcasts s) bid = Some ref"
    and "status (heap s ref) = Paused"
    and "session_connected s (b_sessionId (heap s ref))"
    and "length draws =
           length (filter is_pending (drop (currentIndex (heap s ref)) (recipients (heap s ref))))"
    and "list_all (\<lambda>(outcome, u). 0 \<le> u \<and> u < (1::real)) draws"
  shows "\<exists>s'. run s (Start bid now # solo (length (tasks s)) now draws) = Some s' \<and>
              sent_to (trace s') =
                sent_to (trace s) @
                  map recipient_chatId
                    (filter is_pending (drop (currentIndex (heap s ref)) (recipients (heap s ref)))) \<and>
              status (heap s' ref) = Completed"
proof -
  let ?b = "heap s ref"
  let ?c = "currentIndex ?b"
  let ?rs = "recipients ?b"
  let ?k = "length (tasks s)"
  let ?s0 = "saveBroadcasts (broadcasts_set bid ref (assign ref (started now ?b) s))"
  let ?s1 = "?s0\<lparr>activeQueues := insert bid (activeQueues ?s0)\<rparr>"
  have st: "snd (start s bid now) = processQueue ?s0 bid now"
    using start_accepts [OF assms(1) _ _ assms(3), of now] assms(2) by simp
  have m1: "map_of (broadcasts ?s1) bid = Some ref" by simp
  have h1: "status (heap ?s1 ref) = Running" "currentIndex (heap ?s1 ref) = ?c"
    "recipients (heap ?s1 ref) = ?rs" "b_sessionId (heap ?s1 ref) = b_sessionId ?b"
    by (simp_all add: started_def)
  let ?sk = "takeWhile (\<lambda>r. \<not> is_pending r) (drop ?c ?rs)"
  let ?j = "?c + length ?sk"
  have j: "?j = currentIndex (heap ?s1 ref) +
      length (takeWhile (\<lambda>r. \<not> is_pending r)
                (drop (currentIndex (heap ?s1 ref)) (recipients (heap ?s1 ref))))"
    by (simp only: h1)
  note q = queue_loop_running [OF m1 h1(1) j]
  obtain g session where g: "whatsappManager s = Some g" "g (b_sessionId ?b) = Some session"
    "connectionStatus session = ''connected''"
    using assms(3) by (auto simp: session_connected_def split: option.splits)
  have pq: "processQueue ?s0 bid now =
          (let (s2, w) = queue_loop ?s1 bid ref in
           if w = Returned then queue_end s2 bid ref now
           else s2\<lparr>tasks := tasks s2 @
                   [\<lparr>task_id = bid, task_broadcast = ref, messagesInBatch = 0, suspended = w\<rparr>]\<rparr>)"
    using g by (simp add: processQueue_def Let_def started_def)
  show ?thesis
  proof (cases "?j < length ?rs")
    case True
    let ?s1' = "perform (send_call (heap ?s1 ref) (?rs ! ?j))
                  (assign ref (heap ?s1 ref\<lparr>currentIndex := ?j\<rparr>) ?s1)"
    let ?s2 = "?s1'\<lparr>tasks := tasks ?s1' @
                 [\<lparr>task_id = bid, task_broadcast = ref, messagesInBatch = 0,
                   suspended = AwaitSend ?j\<rparr>]\<rparr>"
    have ql: "queue_loop ?s1 bid ref = (?s1', AwaitSend ?j)"
      using q True h1(3) by simp
    have s2: "snd (start s bid now) = ?s2"
      unfolding st pq ql by simp
    have lt: "length ?sk < length (drop ?c ?rs)" using True by simp
    have fl: "filter is_pending (drop ?c ?rs) = (?rs ! ?j) # filter is_pending (drop (Suc ?j) ?rs)"
      using filter_after_skip(1) [OF lt] True by (simp add: add.commute)
    have p: "?k < length (tasks ?s2)"
      "suspended (tasks ?s2 ! ?k) = AwaitSend ?j"
      "ref = task_broadcast (tasks ?s2 ! ?k)"
      "map_of (broadcasts ?s2) (task_id (tasks ?s2 ! ?k)) = Some ref"
      "status (heap ?s2 ref) = Running"
      "currentIndex (heap ?s2 ref) = ?j"
      "recipients (heap ?s2 ref) = ?rs"
      "sent_to (trace ?s2) = sent_to (trace s) @ [recipient_chatId (?rs ! ?j)]"
      by (simp_all add: started_def)
    have len: "length draws = Suc (length (filter is_pending (drop (Suc ?j) (recipients (heap ?s2 ref)))))"
      using assms(4) fl p(7) by simp
    from solo_resume [OF p(1,2,3,4,5,6) len assms(5), of now]
    obtain s' where s': "run ?s2 (solo ?k now draws) = Some s'"
      "sent_to (trace s') = sent_to (trace ?s2) @
          map recipient_chatId (filter is_pending (drop (Suc ?j) (recipients (heap ?s2 ref))))"
      "status (heap s' ref) = Completed"
      by blast
    have "run s (Start bid now # solo ?k now draws) = Some s'"
      using s'(1) s2 by simp
    moreover have "sent_to (trace s') = sent_to (trace s) @
         map recipient_chatId (filter is_pending (drop ?c ?rs))"
      using s'(2) p(7,8) fl by simp
    ultimately show ?thesis using s'(3) by blast
  next
    case False
    let ?s1' = "assign ref (heap ?s1 ref\<lparr>currentIndex := ?j\<rparr>) ?s1"
    have ql: "queue_loop ?s1 bid ref = (?s1', Returned)"
      using q False h1(3) by simp
    have s2: "snd (start s bid now) = queue_end ?s1' bid ref now"
      unfolding st pq ql by simp
    have nl: "\<not> length ?sk < length (drop ?c ?rs)" using False by simp
    have fl: "filter is_pending (drop ?c ?rs) = []"
      using filter_after_skip(2) [OF nl] .
    then have d: "draws = []" using assms(4) by simp
    have "status (heap (queue_end ?s1' bid ref now) ref) = Completed"
      using False by (simp add: queue_end_def Let_def started_def)
    moreover have "sent_to (trace (queue_end ?s1' bid ref now)) = sent_to (trace s)"
      by simp
    ultimately show ?thesis using s2 d fl by simp
  qed
qed

text \<open>
  The early resume. A campaign of five recipients: two are processed and the
  invocation waits for its timer; the operator pauses, and starts again before the
  timer fires. \<open>start\<close> launches a second invocation, and the first one, waking
  up, finds the campaign running again.
\<close>

definition ok :: send_outcome where
  "ok = Resolved True None"

definition two_processed :: "event list" where
  "two_processed =
     [SetWhatsAppManager (Some connected_manager),
      Create ''b1'' at_2330 (campaign_options [''111'', ''222'', ''333'', ''444'', ''555'']),
      Start ''b1'' at_2330,
      SendSettled 0 ok (1 / 2) at_2330,
      TimerFired 0 at_2330,
      SendSettled 0 ok (1 / 2) at_2330]"

definition resumed_early :: "event list" where
  "resumed_early =
     two_processed @
     [Pause ''b1'',
      Start ''b1'' at_2330,
      TimerFired 0 at_2330,
      SendSettled 1 ok (1 / 2) at_2330,
      SendSettled 0 ok (1 / 2) at_2330,
      TimerFired 1 at_2330,
      TimerFired 0 at_2330,
      SendSettled 1 ok (1 / 2) at_2330,
      SendSettled 0 ok (1 / 2) at_2330,
      TimerFired 1 at_2330,
      TimerFired 0 at_2330]"

lemma paused_after_two:
  "map_option (\<lambda>s. (status (heap s 0), currentIndex (heap s 0), map suspended (tasks s),
                      map recipient_status (recipients (heap s 0))))
     (run new_service (two_processed @ [Pause ''b1''])) =
   Some (Paused, 2, [AwaitTimer], [Sent, Sent, Pending, Pending, Pending])"
  by (simp add: two_processed_def ok_def eval_defs)

text \<open>
  Claim C4 says that a campaign paused while running and started again resumes at the
  cursor and gives each remaining pending recipient exactly one send attempt: three
  more sends for five recipients paused after two. On this run the code does
  otherwise: after the resume the third recipient is sent to twice, the fifth twice
  and the fourth never - four sends instead of three - and the campaign ends
  completed with a recipient still pending and the counts \<open>sent = 6\<close>,
  \<open>pending = -1\<close>.
\<close>

theorem resume_duplicates_send:
  "map_option (\<lambda>s. (trace s, status (heap s 0), stats (heap s 0), currentIndex (heap s 0),
                      map recipient_status (recipients (heap s 0))))
     (run new_service resumed_early) =
   Some ([SendTextMessage ''111'' ''Hello'' 1000, Sleep 5500,
          SendTextMessage ''222'' ''Hello'' 1000, Sleep 5500,
          SendTextMessage ''333'' ''Hello'' 1000,
          SendTextMessage ''333'' ''Hello'' 1000, Sleep 5500, Sleep 5500,
          SendTextMessage ''555'' ''Hello'' 1000,
          SendTextMessage ''555'' ''Hello'' 1000, Sleep 5500, Sleep 5500],
         Completed,
         \<lparr>stats_total = 5, stats_sent = 6, stats_failed = 0, stats_pending = - 1\<rparr>,
         6,
         [Sent, Sent, Sent, Pending, Sent])"
  by (simp add: resumed_early_def two_processed_def ok_def eval_defs)

end
